theory Spec2Isabelle
  imports Complex_Main "HOL-Library.Product_Lexorder"
begin

section \<open>Values and errors\<close>

text \<open>
  Exceptions of the Python code are values of \<open>error\<close>; a function that can raise
  returns \<open>error + 'a\<close>, with \<open>Inl\<close> for the exception.
\<close>

datatype error =
  ZeroDivisionError | OverflowError | IndexError | KeyError | TypeError | ValueError

text \<open>
  Numbers of \<^verbatim>\<open>run_models\<close>. Python's \<^verbatim>\<open>int\<close> and numpy's \<^verbatim>\<open>int64\<close> add, compare
  and print alike and are both \<open>PyInt\<close> (the 64 bits of \<^verbatim>\<open>int64\<close> are not modelled; the
  results below are for counts that fit them). \<open>NpFloat k\<close> is the \<^verbatim>\<open>float64\<close> whose value is the
  integer \<open>k\<close>: the only floats that reach the column names are sums of integers, and
  \<^verbatim>\<open>str\<close> prints such a float as the digits of \<open>k\<close> followed by \<^verbatim>\<open>.0\<close>.
\<close>

datatype pynum = PyInt int | NpFloat int

fun num_val :: "pynum \<Rightarrow> int" where
  "num_val (PyInt k) = k"
| "num_val (NpFloat k) = k"

fun is_float :: "pynum \<Rightarrow> bool" where
  "is_float (PyInt k) = False"
| "is_float (NpFloat k) = True"

text \<open>Mixed arithmetic promotes to float as soon as one operand is a float.\<close>

definition mk_num :: "bool \<Rightarrow> int \<Rightarrow> pynum" where
  "mk_num fl k = (if fl then NpFloat k else PyInt k)"

definition num_add :: "pynum \<Rightarrow> pynum \<Rightarrow> pynum" where
  "num_add a b = mk_num (is_float a \<or> is_float b) (num_val a + num_val b)"

definition num_sub :: "pynum \<Rightarrow> pynum \<Rightarrow> pynum" where
  "num_sub a b = mk_num (is_float a \<or> is_float b) (num_val a - num_val b)"

text \<open>
  \<^verbatim>\<open>np.sum\<close> of a list: the list becomes an array first, and the array of an empty
  list has dtype \<^verbatim>\<open>float64\<close>, so \<^verbatim>\<open>np.sum([])\<close> is the float \<^verbatim>\<open>0.0\<close>; a non-empty
  list of integers sums to an integer.
\<close>

definition np_sum :: "pynum list \<Rightarrow> pynum" where
  "np_sum xs = mk_num (xs = [] \<or> list_ex is_float xs) (sum_list (map num_val xs))"

text \<open>\<^verbatim>\<open>np.arange(n)\<close>: \<open>0, 1, ..., n - 1\<close> in the dtype of \<open>n\<close>, empty for \<open>n \<le> 0\<close>.\<close>

definition np_arange :: "pynum \<Rightarrow> pynum list" where
  "np_arange n = map (\<lambda>k. mk_num (is_float n) (int k)) [0 ..< nat (num_val n)]"

section \<open>Floats\<close>

text \<open>
  A \<^verbatim>\<open>float64\<close> is a finite value, which is a rational number, an infinity or NaN.
  The two zeros are one value here.
\<close>

datatype float64 = Finite rat | PosInf | NegInf | NaN

text \<open>Rounding to the nearest integer, a tie going to the even one.\<close>

definition rne :: "rat \<Rightarrow> int" where
  "rne y = (let f = \<lfloor>y\<rfloor>; d = y - of_int f in
            if d < 1 / 2 then f else if 1 / 2 < d then f + 1
            else if even f then f else f + 1)"

text \<open>
  The result of an arithmetic operation is its exact value rounded to the nearest
  \<^verbatim>\<open>float64\<close>. A positive \<open>x\<close> below \<open>2 ^ 53\<close> is doubled \<open>s\<close> times until it reaches
  \<open>2 ^ 52\<close>, then rounded to an integer of at most 53 bits and scaled back; \<open>s\<close> stops
  at 1074, where the subnormal numbers begin. A larger \<open>x\<close> is halved until it is below
  \<open>2 ^ 53\<close>; a result of \<open>2 ^ 1024\<close> or more is infinite.
\<close>

fun shift_up :: "nat \<Rightarrow> rat \<Rightarrow> nat" where
  "shift_up 0 x = 0"
| "shift_up (Suc n) x = (if 2 ^ 52 \<le> x then 0 else Suc (shift_up n (2 * x)))"

fun shift_down :: "nat \<Rightarrow> rat \<Rightarrow> nat" where
  "shift_down 0 x = 0"
| "shift_down (Suc n) x = (if x < 2 ^ 53 then 0 else Suc (shift_down n (x / 2)))"

definition round_pos :: "rat \<Rightarrow> float64" where
  "round_pos x =
     (if x < 2 ^ 53
      then (let s = shift_up 1074 x in Finite (of_int (rne (x * 2 ^ s)) / 2 ^ s))
      else (let e = shift_down 972 x; z = of_int (rne (x / 2 ^ e)) * 2 ^ e in
            if 2 ^ 1024 \<le> z then PosInf else Finite z))"

fun fneg :: "float64 \<Rightarrow> float64" where
  "fneg (Finite a) = Finite (- a)"
| "fneg PosInf = NegInf"
| "fneg NegInf = PosInf"
| "fneg NaN = NaN"

definition round64 :: "rat \<Rightarrow> float64" where
  "round64 x =
     (if x = 0 then Finite 0 else if 0 < x then round_pos x else fneg (round_pos (- x)))"

text \<open>
  Product and quotient of two floats. With an infinity or a zero divisor the result is
  an infinity of the sign of the operands, or NaN where that sign is zero
  (\<open>inf * 0\<close>, \<open>0 / 0\<close>) and for \<open>inf / inf\<close>; NaN in gives NaN out. The product is
  what lines 132 and 133 of \<^verbatim>\<open>models.py\<close> compute; nothing in the source divides floats
  by one another, and the quotient is here to state what dividing a scaled draw by its
  population gives.
\<close>

fun fsign :: "float64 \<Rightarrow> rat" where
  "fsign (Finite a) = sgn a"
| "fsign PosInf = 1"
| "fsign NegInf = - 1"
| "fsign NaN = 0"

definition inf_of_sign :: "rat \<Rightarrow> float64" where
  "inf_of_sign s = (if 0 < s then PosInf else if s < 0 then NegInf else NaN)"

fun fmul :: "float64 \<Rightarrow> float64 \<Rightarrow> float64" where
  "fmul (Finite a) (Finite b) = round64 (a * b)"
| "fmul x y = inf_of_sign (fsign x * fsign y)"

fun fdiv :: "float64 \<Rightarrow> float64 \<Rightarrow> float64" where
  "fdiv (Finite a) (Finite b) = (if b = 0 then inf_of_sign (sgn a) else round64 (a / b))"
| "fdiv NaN y = NaN"
| "fdiv x NaN = NaN"
| "fdiv (Finite a) y = Finite 0"
| "fdiv x (Finite b) = inf_of_sign (fsign x * (if b < 0 then - 1 else 1))"
| "fdiv x y = NaN"

text \<open>
  \<^verbatim>\<open>int(a / b)\<close> on Python integers: the true division gives the quotient rounded to
  the nearest float, and raises when the divisor is zero or the float would be
  infinite; \<^verbatim>\<open>int\<close> then cuts the fraction off, toward zero.
\<close>

definition trunc :: "rat \<Rightarrow> int" where
  "trunc q = (if q < 0 then - \<lfloor>- q\<rfloor> else \<lfloor>q\<rfloor>)"

definition int_truediv :: "int \<Rightarrow> int \<Rightarrow> error + int" where
  "int_truediv a b =
     (if b = 0 then Inl ZeroDivisionError
      else case round64 (of_int a / of_int b) of
             Finite q \<Rightarrow> Inr (trunc q)
           | _ \<Rightarrow> Inl OverflowError)"

section \<open>run\_models: the draw allocation\<close>

text \<open>
  Lines 101 to 104 of \<^verbatim>\<open>models.py\<close>:
  \<^verbatim>\<open>
    doy_holdouts += 1
    iteration_n_draws = [int(n_draws / doy_holdouts)] * doy_holdouts
    iteration_n_draws[-1] += n_draws - np.sum(iteration_n_draws)
    doy_holdouts = np.arange(doy_holdouts)
  \<close>
  A list times a number that is not positive is empty, and \<^verbatim>\<open>[-1]\<close> of the empty list
  raises.
\<close>

definition iteration_n_draws :: "int \<Rightarrow> int \<Rightarrow> error + pynum list" where
  "iteration_n_draws doy_holdouts n_draws =
     (let k = doy_holdouts + 1 in
      case int_truediv n_draws k of
        Inl e \<Rightarrow> Inl e
      | Inr base \<Rightarrow>
          (let xs = replicate (nat k) (PyInt base) in
           if xs = [] then Inl IndexError
           else Inr (xs [length xs - 1 :=
                  num_add (last xs) (num_sub (PyInt n_draws) (np_sum xs))])))"

definition holdout_depths :: "int \<Rightarrow> pynum list" where
  "holdout_depths doy_holdouts = np_arange (PyInt (doy_holdouts + 1))"

text \<open>The pairs \<^verbatim>\<open>zip(doy_holdouts, iteration_n_draws)\<close> that line 106 iterates over.\<close>

definition holdout_plan :: "int \<Rightarrow> int \<Rightarrow> error + (pynum \<times> pynum) list" where
  "holdout_plan doy_holdouts n_draws =
     (case iteration_n_draws doy_holdouts n_draws of
        Inl e \<Rightarrow> Inl e
      | Inr ds \<Rightarrow> Inr (zip (holdout_depths doy_holdouts) ds))"

section \<open>run\_models: draw column names\<close>

text \<open>Decimal digits, as \<^verbatim>\<open>str\<close> and f-strings print an integer.\<close>

definition digit_char :: "nat \<Rightarrow> char" where
  "digit_char d = ''0123456789'' ! d"

fun show_nat :: "nat \<Rightarrow> string" where
  "show_nat n = (if n < 10 then [digit_char n] else show_nat (n div 10) @ [digit_char (n mod 10)])"

declare show_nat.simps [simp del]

definition show_int :: "int \<Rightarrow> string" where
  "show_int k = (if k < 0 then ''-'' @ show_nat (nat (- k)) else show_nat (nat k))"

text \<open>
  What an f-string prints for a number: an integer as its digits, an integer-valued
  float with \<^verbatim>\<open>.0\<close> appended (so for values below \<open>10 ^ 16\<close>, where Python does not
  switch to exponent form).
\<close>

fun format_num :: "pynum \<Rightarrow> string" where
  "format_num (PyInt k) = show_int k"
| "format_num (NpFloat k) = show_int k @ ''.0''"

text \<open>
  The body of the loop of lines 110 to 121, for iteration \<open>i\<close> of
  \<^verbatim>\<open>enumerate(results)\<close>:
  \<^verbatim>\<open>
    col_add = np.sum(iteration_n_draws[:i])
    cols = [f'draw_{d}' for d in np.arange(iteration_n_draws[i])]
    new_cols = [f'draw_{d + col_add}' for d in np.arange(iteration_n_draws[i])]
    nd = nd.rename(index=str, columns=dict(zip(cols, new_cols)))
  \<close>
  \<open>results\<close> has one entry per entry of \<open>iteration_n_draws\<close>, so \<open>i\<close> is below its
  length.
\<close>

definition col_add :: "pynum list \<Rightarrow> nat \<Rightarrow> pynum" where
  "col_add ds i = np_sum (take i ds)"

definition cols :: "pynum list \<Rightarrow> nat \<Rightarrow> string list" where
  "cols ds i = map (\<lambda>d. ''draw_'' @ format_num d) (np_arange (ds ! i))"

definition new_cols :: "pynum list \<Rightarrow> nat \<Rightarrow> string list" where
  "new_cols ds i =
     map (\<lambda>d. ''draw_'' @ format_num (num_add d (col_add ds i))) (np_arange (ds ! i))"

text \<open>
  \<^verbatim>\<open>DataFrame.rename(columns=dict(zip(a, b)))\<close>: every column label that is a key of
  the dict is replaced by its value, all at once; other labels stay. In a dict built
  from pairs a later pair with the same key replaces an earlier one.
\<close>

definition rename_columns :: "(string \<times> string) list \<Rightarrow> string list \<Rightarrow> string list" where
  "rename_columns d cs =
     map (\<lambda>c. case map_of (rev d) c of None \<Rightarrow> c | Some c' \<Rightarrow> c') cs"

definition renamed :: "pynum list \<Rightarrow> nat \<Rightarrow> string list \<Rightarrow> string list" where
  "renamed ds i cs = rename_columns (zip (cols ds i) (new_cols ds i)) cs"

text \<open>
  Modelled from the spec: \<^verbatim>\<open>smoother.synthesize_time_series\<close> is not under src. By
  its contract each of its two tables, for a draw count \<open>d\<close>, has the key columns and
  the draw columns \<^verbatim>\<open>draw_0 .. draw_{d-1}\<close>.
\<close>

definition synthesized_columns :: "string list \<Rightarrow> pynum \<Rightarrow> string list" where
  "synthesized_columns keys d =
     keys @ map (\<lambda>k. ''draw_'' @ show_nat k) [0 ..< nat (num_val d)]"

text \<open>
  \<^verbatim>\<open>pd.merge(x, y, how='outer')\<close> joins on the columns the two tables share; the
  columns of the result are those of \<open>x\<close> followed by the columns only \<open>y\<close> has.
  \<^verbatim>\<open>functools.reduce\<close> folds it from the left over the renamed tables (lines 122, 123);
  on an empty list it raises.
\<close>

definition merge_columns :: "string list \<Rightarrow> string list \<Rightarrow> string list" where
  "merge_columns xs ys = xs @ filter (\<lambda>c. c \<notin> set xs) ys"

definition assembled_columns :: "string list \<Rightarrow> pynum list \<Rightarrow> error + string list" where
  "assembled_columns keys ds =
     (case map (\<lambda>i. renamed ds i (synthesized_columns keys (ds ! i))) [0 ..< length ds] of
        [] \<Rightarrow> Inl TypeError
      | t # ts \<Rightarrow> Inr (foldl merge_columns t ts))"

text \<open>Line 129: the columns whose name starts with \<^verbatim>\<open>draw_\<close>.\<close>

definition draw_cols_of :: "string list \<Rightarrow> string list" where
  "draw_cols_of cs = filter (\<lambda>c. take 5 c = ''draw_'') cs"

section \<open>model\_iteration: tail blanking\<close>

text \<open>
  A column of floats is a list of \<open>'a option\<close>, with \<open>None\<close> for NaN.
  \<^verbatim>\<open>np.argwhere(~np.isnan(data))\<close> lists the positions that are not NaN, ascending.
\<close>

definition argwhere_notnan :: "'a option list \<Rightarrow> nat list" where
  "argwhere_notnan data = filter (\<lambda>i. data ! i \<noteq> None) [0 ..< length data]"

text \<open>
  The slice \<^verbatim>\<open>xs[s:]\<close>: a negative start counts from the end and stops at the
  beginning of the list.
\<close>

definition slice_from :: "int \<Rightarrow> 'a list \<Rightarrow> 'a list" where
  "slice_from s xs =
     (if s < 0 then drop (nat (int (length xs) + s)) xs else drop (nat s) xs)"

text \<open>\<^verbatim>\<open>data[drop_idx] = np.nan\<close>: every listed position becomes NaN.\<close>

definition blank_at :: "nat list \<Rightarrow> 'a option list \<Rightarrow> 'a option list" where
  "blank_at idx data = foldl (\<lambda>d i. d [i := None]) data idx"

text \<open>
  \<^verbatim>\<open>
  def drop_days_by_indicator(data, doy_holdout):
      data = data.values
      if doy_holdout > 0:
          drop_idx = np.argwhere(~np.isnan(data))[-doy_holdout:]
          data[drop_idx] = np.nan
      return data
  \<close>
\<close>

definition drop_days_by_indicator :: "'a option list \<Rightarrow> int \<Rightarrow> 'a option list" where
  "drop_days_by_indicator data doy_holdout =
     (if doy_holdout > 0
      then blank_at (slice_from (- doy_holdout) (argwhere_notnan data)) data
      else data)"

text \<open>
  The frame \<^verbatim>\<open>model_data\<close> of \<^verbatim>\<open>models.py\<close>: one row per date of the location, with
  the three indicator columns. Dates are day numbers.
\<close>

record model_row =
  md_location_id :: int
  md_location_name :: string
  Date :: int
  Confirmed_case_rate :: "real option"
  Hospitalization_rate :: "real option"
  Death_rate :: "real option"
  md_population :: "real option"

type_synonym frame = "model_row list"

datatype indicator = DeathRate | ConfirmedCaseRate | HospitalizationRate

fun get_cell :: "indicator \<Rightarrow> model_row \<Rightarrow> real option" where
  "get_cell DeathRate r = Death_rate r"
| "get_cell ConfirmedCaseRate r = Confirmed_case_rate r"
| "get_cell HospitalizationRate r = Hospitalization_rate r"

fun set_cell :: "indicator \<Rightarrow> real option \<Rightarrow> model_row \<Rightarrow> model_row" where
  "set_cell DeathRate v r = r\<lparr>Death_rate := v\<rparr>"
| "set_cell ConfirmedCaseRate v r = r\<lparr>Confirmed_case_rate := v\<rparr>"
| "set_cell HospitalizationRate v r = r\<lparr>Hospitalization_rate := v\<rparr>"

text \<open>\<^verbatim>\<open>model_data[indicator]\<close>, read and assigned.\<close>

definition column :: "indicator \<Rightarrow> frame \<Rightarrow> real option list" where
  "column ind fr = map (get_cell ind) fr"

definition assign_column :: "indicator \<Rightarrow> real option list \<Rightarrow> frame \<Rightarrow> frame" where
  "assign_column ind vals fr = map2 (set_cell ind) vals fr"

text \<open>
  Lines 35 to 38 of \<^verbatim>\<open>model_iteration\<close>:
  \<^verbatim>\<open>
    indicators = ['Death rate', 'Confirmed case rate', 'Hospitalization rate']
    for indicator in indicators:
        model_data[indicator] = drop_days_by_indicator(model_data[indicator], doy_holdout)
    model_data = model_data.loc[~model_data[indicators].isnull().all(axis=1)]
  \<close>
\<close>

definition indicators :: "indicator list" where
  "indicators = [DeathRate, ConfirmedCaseRate, HospitalizationRate]"

text \<open>One pass of the loop body, and the loop.\<close>

definition blank_step :: "int \<Rightarrow> frame \<Rightarrow> indicator \<Rightarrow> frame" where
  "blank_step doy_holdout f ind =
     assign_column ind (drop_days_by_indicator (column ind f) doy_holdout) f"

definition blank_indicators :: "int \<Rightarrow> frame \<Rightarrow> frame" where
  "blank_indicators doy_holdout fr = foldl (blank_step doy_holdout) fr indicators"

definition all_null :: "model_row \<Rightarrow> bool" where
  "all_null r = list_all (\<lambda>ind. get_cell ind r = None) indicators"

definition drop_null_rows :: "frame \<Rightarrow> frame" where
  "drop_null_rows fr = filter (\<lambda>r. \<not> all_null r) fr"

text \<open>
  The positions that a blanking of depth \<open>h\<close> makes NaN, written out: the last
  \<open>min h m\<close> of the \<open>m\<close> positions that are not NaN. Used to state what
  \<open>drop_days_by_indicator\<close> does.
\<close>

definition blanked_idx :: "'a option list \<Rightarrow> int \<Rightarrow> nat list" where
  "blanked_idx data h =
     (let A = argwhere_notnan data in drop (length A - min (nat h) (length A)) A)"

section \<open>model\_iteration and run\_models: frames as objects\<close>

text \<open>
  Frames are objects: a name holds the address of a frame, and an assignment to a
  column changes the frame at that address for every holder of the address. The store
  maps addresses to frames; \<open>fresh\<close> is the next unused address.
\<close>

record store =
  frames :: "nat \<Rightarrow> frame"
  fresh :: nat

definition alloc :: "frame \<Rightarrow> store \<Rightarrow> nat \<times> store" where
  "alloc fr s = (fresh s, s\<lparr>frames := (frames s) (fresh s := fr), fresh := Suc (fresh s)\<rparr>)"

text \<open>
  \<^verbatim>\<open>model_data[indicator] = values\<close> on the frame at address \<open>a\<close>.
  \<^verbatim>\<open>drop_days_by_indicator\<close> writes NaN into the array of the column it is given,
  which belongs to that same frame, and the caller assigns the array back.
\<close>

definition assign_column_at :: "nat \<Rightarrow> indicator \<Rightarrow> real option list \<Rightarrow> store \<Rightarrow> store" where
  "assign_column_at a ind vals s =
     s\<lparr>frames := (frames s) (a := assign_column ind vals (frames s a))\<rparr>"

text \<open>
  \<^verbatim>\<open>model_iteration\<close>, lines 30 to 72. Line 34, \<^verbatim>\<open>model_data = model_data.copy()\<close>,
  allocates a copy and rebinds the local name to it; the loop of lines 36 and 37 assigns
  the columns of the copy; line 38 builds a new, filtered frame. The first-stage and
  second-stage models of lines 40 to 72 are in modules outside src
  (\<^verbatim>\<open>cfr_model\<close>, \<^verbatim>\<open>smoother\<close>); they are the parameter \<open>stages\<close>, which receives the
  location, the filtered frame, the depth and the draw count, and returns the
  iteration's results.
\<close>

definition model_iteration ::
  "(int \<Rightarrow> frame \<Rightarrow> int \<Rightarrow> pynum \<Rightarrow> 'r) \<Rightarrow> int \<Rightarrow> nat \<Rightarrow> int \<Rightarrow> pynum \<Rightarrow> store \<Rightarrow> 'r \<times> store"
where
  "model_iteration stages location_id model_data doy_holdout n_draws s =
     (let (a, s1) = alloc (frames s model_data) s;
          s2 = foldl (\<lambda>t ind. assign_column_at a ind
                  (drop_days_by_indicator (column ind (frames t a)) doy_holdout) t)
                s1 indicators;
          (b, s3) = alloc (drop_null_rows (frames s2 a)) s2
      in (stages location_id (frames s3 b) doy_holdout n_draws, s3))"

text \<open>
  Line 106 of \<^verbatim>\<open>run_models\<close>: every iteration is given the same frame object.
  \<^verbatim>\<open>
    results = [model_iteration(location_id, model_data, model_settings, h, d)
               for h, d in zip(doy_holdouts, iteration_n_draws)]
  \<close>
\<close>

fun run_iterations ::
  "(int \<Rightarrow> frame \<Rightarrow> int \<Rightarrow> pynum \<Rightarrow> 'r) \<Rightarrow> int \<Rightarrow> nat \<Rightarrow> (pynum \<times> pynum) list \<Rightarrow> store
     \<Rightarrow> 'r list \<times> store"
where
  "run_iterations stages location_id model_data [] s = ([], s)"
| "run_iterations stages location_id model_data ((h, d) # plan) s =
     (let (r, s1) = model_iteration stages location_id model_data (num_val h) d s;
          (rs, s2) = run_iterations stages location_id model_data plan s1
      in (r # rs, s2))"

text \<open>
  A series of three days for one location, with death rates only, and the store that
  holds it at address 0.
\<close>

definition day :: "int \<Rightarrow> real option \<Rightarrow> model_row" where
  "day t v = \<lparr>md_location_id = 7, md_location_name = ''X'', Date = t,
              Confirmed_case_rate = None, Hospitalization_rate = None, Death_rate = v,
              md_population = Some 1\<rparr>"

definition three_days :: frame where
  "three_days = [day 1 (Some 1), day 2 (Some 2), day 3 (Some 3)]"

definition three_days_store :: store where
  "three_days_store = \<lparr>frames = (\<lambda>a. three_days), fresh = 1\<rparr>"

section \<open>Draw tables\<close>

text \<open>
  A draw table has the key columns \<^verbatim>\<open>location_id\<close> and \<^verbatim>\<open>date\<close> (a day number) and
  named float columns. \<open>columns\<close> lists the names of the float columns; \<open>cells r c\<close> is
  the value of row \<open>r\<close> in column \<open>c\<close>, \<open>None\<close> for NaN, and is read only for a name
  among the columns (pandas raises \<^verbatim>\<open>KeyError\<close> for any other name).
\<close>

record draw_row =
  location_id :: int
  date :: int
  cells :: "string \<Rightarrow> real option"

record draw_table =
  columns :: "string list"
  rows :: "draw_row list"

text \<open>
  The difference of two cells, as the differencing of the draws uses it: NaN in, NaN
  out; the values themselves are reals.
\<close>

fun nan_sub :: "real option \<Rightarrow> real option \<Rightarrow> real option" where
  "nan_sub (Some a) (Some b) = Some (a - b)"
| "nan_sub a b = None"

section \<open>run\_models: rescaling rates to counts\<close>

text \<open>
  The two draw tables of \<^verbatim>\<open>run_models\<close>, with \<^verbatim>\<open>float64\<close> cells: the key columns, and
  the named float columns (the population and the draws) as for a draw table.
\<close>

record rate_row =
  rt_location_id :: int
  rt_date :: int
  rt_cells :: "string \<Rightarrow> float64"

record rate_table =
  rt_columns :: "string list"
  rt_rows :: "rate_row list"

text \<open>
  Lines 129 to 135 of \<^verbatim>\<open>models.py\<close>:
  \<^verbatim>\<open>
    draw_cols = [col for col in smooth_draws.columns if col.startswith('draw_')]
    ...
    noisy_draws[draw_cols] = noisy_draws[draw_cols] * noisy_draws[['population']].values
    smooth_draws[draw_cols] = smooth_draws[draw_cols] * smooth_draws[['population']].values
    del noisy_draws['population']
    del smooth_draws['population']
  \<close>
  The product broadcasts the one-column array of populations over the draw columns, so
  every draw of a row is multiplied by the population of that row. Selecting a column the
  table does not have raises.
\<close>

definition times_population :: "string list \<Rightarrow> rate_table \<Rightarrow> error + rate_table" where
  "times_population draw_cols t =
     (if \<not> list_all (\<lambda>c. c \<in> set (rt_columns t)) (draw_cols @ [''population''])
      then Inl KeyError
      else Inr (t\<lparr>rt_rows := map (\<lambda>r. r\<lparr>rt_cells := (\<lambda>c. if c \<in> set draw_cols
                                then fmul (rt_cells r c) (rt_cells r ''population'')
                                else rt_cells r c)\<rparr>) (rt_rows t)\<rparr>))"

definition del_column :: "string \<Rightarrow> rate_table \<Rightarrow> error + rate_table" where
  "del_column c t =
     (if c \<notin> set (rt_columns t) then Inl KeyError
      else Inr (t\<lparr>rt_columns := filter (\<lambda>x. x \<noteq> c) (rt_columns t)\<rparr>))"

definition rescale_draws :: "rate_table \<Rightarrow> rate_table \<Rightarrow> error + rate_table \<times> rate_table" where
  "rescale_draws noisy_draws smooth_draws =
     (let draw_cols = draw_cols_of (rt_columns smooth_draws) in
      case times_population draw_cols noisy_draws of Inl e \<Rightarrow> Inl e | Inr nd \<Rightarrow>
      case times_population draw_cols smooth_draws of Inl e \<Rightarrow> Inl e | Inr sd \<Rightarrow>
      case del_column ''population'' nd of Inl e \<Rightarrow> Inl e | Inr nd' \<Rightarrow>
      case del_column ''population'' sd of Inl e \<Rightarrow> Inl e | Inr sd' \<Rightarrow>
      Inr (nd', sd'))"

text \<open>
  A rate table of one row: population 3, one draw with the rate 0.1, that is, the float
  nearest to one tenth.
\<close>

definition one_row_rates :: rate_table where
  "one_row_rates =
     \<lparr>rt_columns = [''population'', ''draw_0''],
      rt_rows = [\<lparr>rt_location_id = 7, rt_date = 1,
                  rt_cells = (\<lambda>c. if c = ''population'' then Finite 3
                                   else if c = ''draw_0'' then round64 (1 / 10) else NaN)\<rparr>]\<rparr>"

section \<open>make\_deaths: rows with NaN and the continuity check\<close>

text \<open>
  Lines 159 to 178 of \<^verbatim>\<open>runner.py\<close>, on the collected smoothed draws indexed by
  \<^verbatim>\<open>(location_id, date)\<close>. The same mask is applied to the infections table; this model
  follows \<^verbatim>\<open>smooth_draws\<close>, the metadata and the report.
  \<^verbatim>\<open>
    nan_rows = smooth_draws.isnull().any(axis=1)
    smooth_draws_nans = smooth_draws.loc[nan_rows].reset_index()
    if smooth_draws_nans.empty:
        ...
        app_metadata.update({'nan_locations': []})
    else:
        smooth_draws = smooth_draws.loc[~nan_rows].reset_index()
        ...
        nan_min = smooth_draws_nans.groupby('location_id')['date'].min()
        val_max = smooth_draws.groupby('location_id')['date'].max()
        date_diffs = (nan_min - val_max).apply(lambda x: x.days)
        date_diffs = date_diffs.loc[date_diffs.notnull()]
        app_metadata.update({'nan_locations': date_diffs.index.to_list()})
        if (date_diffs < 0).any():
            date_diffs.to_csv(output_root / 'problem_location_report.csv', index=False)
            raise ValueError('Dropping NaNs in middle of time series (see ...)')
  \<close>
\<close>

text \<open>\<^verbatim>\<open>isnull().any(axis=1)\<close>: some column of the row is NaN.\<close>

definition nan_row :: "string list \<Rightarrow> draw_row \<Rightarrow> bool" where
  "nan_row cs r = list_ex (\<lambda>c. cells r c = None) cs"

text \<open>
  \<^verbatim>\<open>groupby('location_id')['date'].min()\<close> and \<^verbatim>\<open>.max()\<close>: a series indexed by the
  locations that occur, ascending, holding the least or greatest date of each.
\<close>

definition group_dates :: "draw_row list \<Rightarrow> int \<Rightarrow> int set" where
  "group_dates rs l = set (map date (filter (\<lambda>r. location_id r = l) rs))"

definition groupby_date_min :: "draw_row list \<Rightarrow> (int \<times> int) list" where
  "groupby_date_min rs =
     map (\<lambda>l. (l, Min (group_dates rs l))) (sort (remdups (map location_id rs)))"

definition groupby_date_max :: "draw_row list \<Rightarrow> (int \<times> int) list" where
  "groupby_date_max rs =
     map (\<lambda>l. (l, Max (group_dates rs l))) (sort (remdups (map location_id rs)))"

text \<open>
  The difference of two series aligns them on the union of their indexes; a label
  missing on either side gives a missing value. \<^verbatim>\<open>.apply(lambda x: x.days)\<close> reads the
  difference in days, which is what the day numbers give.
\<close>

definition series_sub :: "(int \<times> int) list \<Rightarrow> (int \<times> int) list \<Rightarrow> (int \<times> int option) list" where
  "series_sub a b =
     map (\<lambda>k. (k, case (map_of a k, map_of b k) of
                     (Some x, Some y) \<Rightarrow> Some (x - y)
                   | _ \<Rightarrow> None))
       (sort (remdups (map fst a @ map fst b)))"

text \<open>\<^verbatim>\<open>s.loc[s.notnull()]\<close>\<close>

definition notnull_entries :: "(int \<times> int option) list \<Rightarrow> (int \<times> int) list" where
  "notnull_entries s = List.map_filter (\<lambda>(k, v). map_option (Pair k) v) s"

definition date_diffs :: "draw_row list \<Rightarrow> draw_row list \<Rightarrow> (int \<times> int) list" where
  "date_diffs smooth_draws_nans smooth_draws =
     notnull_entries (series_sub (groupby_date_min smooth_draws_nans)
                                 (groupby_date_max smooth_draws))"

text \<open>
  \<^verbatim>\<open>Series.to_csv(path, index=index)\<close>: one line per entry, holding the index label and
  the value, or the value alone when \<^verbatim>\<open>index=False\<close>. (The header line is left out.)
\<close>

definition series_to_csv :: "bool \<Rightarrow> (int \<times> int) list \<Rightarrow> int list list" where
  "series_to_csv index s = map (\<lambda>(k, v). if index then [k, v] else [v]) s"

text \<open>
  What the block leaves behind: the table that goes on downstream, the table of NaN
  rows, the metadata entry, the lines of \<^verbatim>\<open>problem_location_report.csv\<close> if the file was
  written, and the exception if one was raised (the file is written first).
\<close>

record guard_result =
  kept :: draw_table
  nans :: draw_table
  nan_locations :: "int list"
  problem_location_report :: "int list list option"
  raised :: "error option"

definition continuity_guard :: "draw_table \<Rightarrow> guard_result" where
  "continuity_guard smooth_draws =
     (let nan_rows = nan_row (columns smooth_draws);
          smooth_draws_nans = filter nan_rows (rows smooth_draws)
      in if smooth_draws_nans = []
         then \<lparr>kept = smooth_draws,
               nans = smooth_draws\<lparr>rows := []\<rparr>,
               nan_locations = [],
               problem_location_report = None,
               raised = None\<rparr>
         else
           (let vals = filter (\<lambda>r. \<not> nan_rows r) (rows smooth_draws);
                dd = date_diffs smooth_draws_nans vals
            in \<lparr>kept = smooth_draws\<lparr>rows := vals\<rparr>,
                nans = smooth_draws\<lparr>rows := smooth_draws_nans\<rparr>,
                nan_locations = map fst dd,
                problem_location_report =
                  (if list_ex (\<lambda>(l, g). g < 0) dd then Some (series_to_csv False dd) else None),
                raised = (if list_ex (\<lambda>(l, g). g < 0) dd then Some ValueError else None)\<rparr>))"

text \<open>
  Two tables with one draw column. In the first, location 7 has a NaN on day 1 and a
  value on day 2; in the second, location 7 has values on days 1 and 2 and a NaN on day
  3, and location 9 has NaN on both of its days.
\<close>

definition draw_at :: "int \<Rightarrow> int \<Rightarrow> real option \<Rightarrow> draw_row" where
  "draw_at l t v = \<lparr>location_id = l, date = t, cells = (\<lambda>c. v)\<rparr>"

definition interior_gap_table :: draw_table where
  "interior_gap_table =
     \<lparr>columns = [''draw_0''], rows = [draw_at 7 1 None, draw_at 7 2 (Some 5)]\<rparr>"

definition trailing_gap_table :: draw_table where
  "trailing_gap_table =
     \<lparr>columns = [''draw_0''],
      rows = [draw_at 7 1 (Some 5), draw_at 7 2 (Some 12), draw_at 7 3 None,
              draw_at 9 1 None, draw_at 9 2 None]\<rparr>"

section \<open>make\_deaths: daily deaths and infection dates\<close>

text \<open>
  Lines 20 and 227 to 236 of \<^verbatim>\<open>runner.py\<close>:
  \<^verbatim>\<open>
    DURATION = 12
    ...
    infections['date'] = infections['date'] - pd.Timedelta(days=DURATION + 11)
    infections = infections.set_index(['location_id', 'date'])
    draw_cols = [f'draw_{d}' for d in range(n_draws)]
    smooth_draws = (smooth_draws
                    .sort_index()
                    .reset_index()
                    .groupby('location_id')
                    .apply(lambda x: pd.DataFrame(np.diff(x[draw_cols], axis=0, prepend=0),
                                                  index=x['date'],
                                                  columns=draw_cols)))
  \<close>
  The date shift is applied to the infections table. The differenced table is indexed by
  the dates of its rows as they are; it is handed afterwards, with
  \<^verbatim>\<open>duration=DURATION + 11\<close>, to \<^verbatim>\<open>data.write_infections\<close>, which is outside src.
\<close>

definition DURATION :: int where
  "DURATION = 12"

definition shift_infection_dates :: "draw_row list \<Rightarrow> draw_row list" where
  "shift_infection_dates infections =
     map (\<lambda>r. r\<lparr>date := date r - (DURATION + 11)\<rparr>) infections"

definition draw_names :: "int \<Rightarrow> string list" where
  "draw_names n_draws = map (\<lambda>d. ''draw_'' @ show_nat d) [0 ..< nat n_draws]"

text \<open>
  \<^verbatim>\<open>np.diff(a, axis=0, prepend=0)\<close> on a matrix given as its list of rows: a row of
  zeros is put in front, and every row of the result is a row minus the row before it.
\<close>

fun np_diff :: "real option list \<Rightarrow> real option list list \<Rightarrow> real option list list" where
  "np_diff prev [] = []"
| "np_diff prev (x # xs) = map2 nan_sub x prev # np_diff x xs"

definition np_diff_prepend0 :: "nat \<Rightarrow> real option list list \<Rightarrow> real option list list" where
  "np_diff_prepend0 ncols a = np_diff (replicate ncols (Some 0)) a"

text \<open>The cells of a row built from its values, listed in column order.\<close>

definition row_of :: "string list \<Rightarrow> real option list \<Rightarrow> string \<Rightarrow> real option" where
  "row_of cs vs = (\<lambda>c. case map_of (zip cs vs) c of None \<Rightarrow> None | Some v \<Rightarrow> v)"

text \<open>The function applied to the group \<open>x\<close> of one location.\<close>

definition diff_group :: "string list \<Rightarrow> draw_row list \<Rightarrow> draw_row list" where
  "diff_group draw_cols x =
     map2 (\<lambda>r v. \<lparr>location_id = location_id r, date = date r, cells = row_of draw_cols v\<rparr>) x
       (np_diff_prepend0 (length draw_cols) (map (\<lambda>r. map (cells r) draw_cols) x))"

text \<open>
  The groups are taken from the table sorted by \<^verbatim>\<open>(location_id, date)\<close>, one per
  location, in ascending order of the location. Selecting a draw column that the table
  does not have raises as soon as there is a group to apply the function to.
\<close>

definition daily_deaths :: "int \<Rightarrow> draw_table \<Rightarrow> error + draw_table" where
  "daily_deaths n_draws smooth_draws =
     (let draw_cols = draw_names n_draws;
          sorted_rows = sort_key (\<lambda>r. (location_id r, date r)) (rows smooth_draws)
      in if sorted_rows \<noteq> [] \<and> \<not> list_all (\<lambda>c. c \<in> set (columns smooth_draws)) draw_cols
         then Inl KeyError
         else Inr \<lparr>columns = draw_cols,
                   rows = concat (map (\<lambda>l. diff_group draw_cols
                                          (filter (\<lambda>r. location_id r = l) sorted_rows))
                                   (sort (remdups (map location_id sorted_rows))))\<rparr>)"

text \<open>
  Cumulative deaths of one location on three consecutive days, listed out of order:
  20 on day 3, 5 on day 1, 12 on day 2.
\<close>

definition cumulative_table :: draw_table where
  "cumulative_table =
     \<lparr>columns = [''draw_0''],
      rows = [draw_at 7 3 (Some 20), draw_at 7 1 (Some 5), draw_at 7 2 (Some 12)]\<rparr>"

text \<open>
  The block as a whole, lines 227 to 245: what it leaves in \<^verbatim>\<open>infections\<close> and in
  \<^verbatim>\<open>smooth_draws\<close>, and the \<^verbatim>\<open>duration\<close> that it hands to \<^verbatim>\<open>data.write_infections\<close>
  together with copies of the two tables. (The columns \<^verbatim>\<open>observed_infections\<close> and
  \<^verbatim>\<open>observed_deaths\<close> of lines 225 and 237 are left out.)
  \<^verbatim>\<open>
    _write_infections = functools.partial(
        data.write_infections,
        smooth_draws=smooth_draws.copy(),
        infections=infections.copy(),
        md_locs=hierarchy['location_id'].to_list(),
        infections_dir=infections_dir,
        duration=DURATION + 11
    )
  \<close>
\<close>

record infection_inputs =
  infections_arg :: draw_table
  smooth_draws_arg :: draw_table
  duration_arg :: int

definition derive_infections :: "int \<Rightarrow> draw_table \<Rightarrow> draw_table \<Rightarrow> error + infection_inputs" where
  "derive_infections n_draws smooth_draws infections =
     (let infections = infections\<lparr>rows := shift_infection_dates (rows infections)\<rparr> in
      case daily_deaths n_draws smooth_draws of
        Inl e \<Rightarrow> Inl e
      | Inr smooth_draws \<Rightarrow>
          Inr \<lparr>infections_arg = infections,
               smooth_draws_arg = smooth_draws,
               duration_arg = DURATION + 11\<rparr>)"

text \<open>An infections table for the same location and days.\<close>

definition infections_table :: draw_table where
  "infections_table =
     \<lparr>columns = [''draw_0''],
      rows = [draw_at 7 1 (Some 100), draw_at 7 2 (Some 140), draw_at 7 3 (Some 160)]\<rparr>"

section \<open>make\_deaths: post-model aggregates\<close>

text \<open>
  A declared aggregate location, \<^verbatim>\<open>aggregate.Location(lid, lname)\<close>, and a row of an
  aggregate table: the location id, the location name, and the rest of the row (its date
  and aggregated values).
\<close>

record Location =
  loc_id :: int
  loc_name :: string

record 'v agg_row =
  agg_location_id :: int
  agg_location_name :: string
  agg_values :: 'v

text \<open>
  Modelled from the spec: \<^verbatim>\<open>aggregate.compute_location_aggregates_data\<close> and
  \<^verbatim>\<open>aggregate.compute_location_aggregates_draws\<close> are not under src. For every declared
  aggregate location, in the order of the list, they produce the aggregate rows of that
  location from the rows of its constituents, labelled with the id and the name the
  location was declared with. The summation over the constituents is the parameter
  \<open>sum_up\<close>.
\<close>

definition compute_location_aggregates ::
  "(Location \<Rightarrow> 'd \<Rightarrow> 'v list) \<Rightarrow> 'd \<Rightarrow> Location list \<Rightarrow> 'v agg_row list"
where
  "compute_location_aggregates sum_up data agg_locations =
     concat (map (\<lambda>loc. map (\<lambda>v. \<lparr>agg_location_id = loc_id loc,
                                   agg_location_name = loc_name loc,
                                   agg_values = v\<rparr>) (sum_up loc data))
               agg_locations)"

text \<open>
  Lines 192 to 198 of \<^verbatim>\<open>runner.py\<close>:
  \<^verbatim>\<open>
    agg_locations = [aggregate.Location(1, 'Global')] + agg_locations
    agg_model_data = aggregate.compute_location_aggregates_data(model_data, hierarchy,
                                                                agg_locations)
    agg_model_data['location_id'] = -agg_model_data['location_id']
    agg_model_data['location_name'] = agg_model_data['location_name'] + ' (model aggregate)'
    agg_draw_df = aggregate.compute_location_aggregates_draws(
        smooth_draws.rename(columns={'date': 'Date'}), hierarchy, agg_locations)
    agg_draw_df['location_id'] = -agg_draw_df['location_id']
  \<close>
\<close>

definition post_model_aggregates ::
  "(Location \<Rightarrow> 'd \<Rightarrow> 'v list) \<Rightarrow> (Location \<Rightarrow> 'e \<Rightarrow> 'w list) \<Rightarrow> 'd \<Rightarrow> 'e \<Rightarrow> Location list
     \<Rightarrow> 'v agg_row list \<times> 'w agg_row list"
where
  "post_model_aggregates sum_data sum_draws model_data smooth_draws agg_locations =
     (let agg_locations = \<lparr>loc_id = 1, loc_name = ''Global''\<rparr> # agg_locations;
          agg_model_data = compute_location_aggregates sum_data model_data agg_locations;
          agg_model_data =
            map (\<lambda>r. r\<lparr>agg_location_id := - agg_location_id r\<rparr>) agg_model_data;
          agg_model_data =
            map (\<lambda>r. r\<lparr>agg_location_name := agg_location_name r @ '' (model aggregate)''\<rparr>)
              agg_model_data;
          agg_draw_df = compute_location_aggregates sum_draws smooth_draws agg_locations;
          agg_draw_df = map (\<lambda>r. r\<lparr>agg_location_id := - agg_location_id r\<rparr>) agg_draw_df
      in (agg_model_data, agg_draw_df))"

section \<open>Rounding to a float\<close>

lemma rne_cases: "rne y = \<lfloor>y\<rfloor> \<or> rne y = \<lfloor>y\<rfloor> + 1"
  by (simp add: rne_def Let_def)

lemma rne_ge_floor: "\<lfloor>y\<rfloor> \<le> rne y"
  using rne_cases [of y] by auto

lemma rne_le_floor1: "rne y \<le> \<lfloor>y\<rfloor> + 1"
  using rne_cases [of y] by auto

lemma rne_below_half:
  assumes "y < of_int N - 1 / 2"
  shows "rne y \<le> N - 1"
proof -
  have "y < of_int N" using assms by simp
  then have f: "\<lfloor>y\<rfloor> \<le> N - 1" by (simp add: floor_less_iff)
  show ?thesis
  proof (cases "\<lfloor>y\<rfloor> = N - 1")
    case True
    then have "y - of_int \<lfloor>y\<rfloor> < 1 / 2" using assms by simp
    then have "rne y = \<lfloor>y\<rfloor>" by (simp add: rne_def Let_def)
    then show ?thesis using True by simp
  next
    case False
    then have "\<lfloor>y\<rfloor> + 1 \<le> N - 1" using f by simp
    then show ?thesis using rne_le_floor1 [of y] by linarith
  qed
qed

lemma rne_abs: "\<bar>of_int (rne y) - y\<bar> \<le> 1 / 2"
proof -
  have a: "of_int \<lfloor>y\<rfloor> \<le> y" and b: "y < of_int \<lfloor>y\<rfloor> + 1" by linarith+
  show ?thesis
    using a b by (auto simp: rne_def Let_def abs_le_iff)
qed

lemma shift_up_le: "shift_up n x \<le> n"
  by (induction n arbitrary: x) simp_all

lemma shift_up_reach: "shift_up n x < n \<Longrightarrow> 2 ^ 52 \<le> x * 2 ^ shift_up n x"
proof (induction n arbitrary: x)
  case 0
  then show ?case by simp
next
  case (Suc n)
  show ?case
  proof (cases "2 ^ 52 \<le> x")
    case True
    then show ?thesis by simp
  next
    case False
    then have "shift_up n (2 * x) < n" using Suc.prems by simp
    from Suc.IH [OF this] show ?thesis using False by (simp add: mult.assoc mult.left_commute)
  qed
qed

lemma shift_up_normal:
  assumes "2 ^ 52 \<le> x * 2 ^ n"
  shows "2 ^ 52 \<le> x * 2 ^ shift_up n x"
proof (cases "shift_up n x < n")
  case True
  then show ?thesis by (rule shift_up_reach)
next
  case False
  then have "shift_up n x = n" using shift_up_le [of n x] by simp
  then show ?thesis using assms by simp
qed

lemma shift_down_lower: "2 ^ 52 \<le> x \<Longrightarrow> 2 ^ 52 \<le> x / 2 ^ shift_down n x"
proof (induction n arbitrary: x)
  case 0
  then show ?case by simp
next
  case (Suc n)
  show ?case
  proof (cases "x < 2 ^ 53")
    case True
    then show ?thesis using Suc.prems by simp
  next
    case False
    then have "(2::rat) ^ 52 \<le> x / 2" by simp
    from Suc.IH [OF this] show ?thesis using False by (simp add: divide_divide_eq_left mult.commute)
  qed
qed

lemma half_bound: "(z::rat) * 2 < 2 ^ 53 \<Longrightarrow> z < 2 ^ 52"
  by simp

lemma floor_scaled_rne:
  fixes n k :: int
  assumes n: "0 < n" "n < 2 ^ 53" and k: "0 < k"
    and s: "s < 1074 \<longrightarrow> 2 ^ 52 \<le> (of_int n / of_int k :: rat) * 2 ^ s" "s \<le> 1074"
  shows "\<lfloor>(of_int (rne (of_int n / of_int k * 2 ^ s)) :: rat) / 2 ^ s\<rfloor> = n div k"
proof -
  let ?x = "of_int n / of_int k :: rat"
  let ?y = "?x * 2 ^ s"
  let ?q = "n div k"
  let ?m = "rne ?y"
  have kr: "(0::rat) < of_int k" using k by simp
  have p2: "(0::rat) < 2 ^ s" by simp
  have qx: "(of_int ?q :: rat) \<le> ?x"
  proof -
    have "?q * k \<le> n" using k by (metis div_mult_mod_eq add.commute le_add_same_cancel2 pos_mod_sign)
    then have "(of_int (?q * k) :: rat) \<le> of_int n" by (simp only: of_int_le_iff)
    then show ?thesis using kr by (simp add: pos_le_divide_eq)
  qed
  have xq: "?x \<le> of_int (?q + 1) - 1 / of_int k"
  proof -
    have "n mod k < k" using k by simp
    moreover have "n = ?q * k + n mod k" by simp
    ultimately have "n + 1 \<le> ?q * k + k" by linarith
    then have "n + 1 \<le> (?q + 1) * k" by (simp add: algebra_simps)
    then have "(of_int (n + 1) :: rat) \<le> of_int ((?q + 1) * k)" by (simp only: of_int_le_iff)
    then have "(of_int n :: rat) + 1 \<le> of_int (?q + 1) * of_int k" by simp
    then have "((of_int n :: rat) + 1) / of_int k \<le> of_int (?q + 1)"
      using kr by (simp add: pos_divide_le_eq)
    then show ?thesis by (simp add: add_divide_distrib)
  qed
  have lo: "?q * 2 ^ s \<le> ?m"
  proof -
    have "(of_int ?q :: rat) * 2 ^ s \<le> ?x * 2 ^ s"
      using qx p2 by (simp only: mult_le_cancel_right_pos)
    moreover have "(of_int (?q * 2 ^ s) :: rat) = of_int ?q * 2 ^ s" by simp
    ultimately have "(of_int (?q * 2 ^ s) :: rat) \<le> ?y" by (simp only:)
    then have "?q * 2 ^ s \<le> \<lfloor>?y\<rfloor>" by (simp only: le_floor_iff)
    then show ?thesis using rne_ge_floor [of ?y] by linarith
  qed
  have hi: "?m \<le> (?q + 1) * 2 ^ s - 1"
  proof (cases "k < 2 ^ (s + 1)")
    case True
    then have "(of_int k :: rat) < of_int (2 ^ (s + 1))" by (simp only: of_int_less_iff)
    then have "(of_int k :: rat) < 2 * 2 ^ s" by simp
    then have h: "(1::rat) / 2 < 2 ^ s / of_int k" using kr by (simp add: pos_less_divide_eq)
    have "?y \<le> (of_int (?q + 1) - 1 / of_int k) * 2 ^ s"
      using xq p2 by (simp only: mult_le_cancel_right_pos)
    also have "\<dots> = of_int ((?q + 1) * 2 ^ s) - 2 ^ s / of_int k"
      by (simp add: algebra_simps)
    also have "\<dots> < of_int ((?q + 1) * 2 ^ s) - 1 / 2" using h by simp
    finally show ?thesis by (rule rne_below_half)
  next
    case False
    then have big: "2 ^ (s + 1) \<le> k" by simp
    have s1074: "s = 1074"
    proof (rule ccontr)
      assume "s \<noteq> 1074"
      then have "s < 1074" using s(2) by simp
      then have "(2::rat) ^ 52 \<le> ?y" using s(1) by simp
      then have "(2::rat) ^ 52 * of_int k \<le> of_int n * 2 ^ s"
        using kr by (simp add: pos_le_divide_eq)
      moreover have "(of_int n :: rat) < 2 ^ 53" using n(2) by (metis of_int_less_iff of_int_numeral of_int_power)
      then have "(of_int n :: rat) * 2 ^ s < 2 ^ 53 * 2 ^ s" using p2 by simp
      ultimately have "(2::rat) ^ 52 * of_int k < 2 ^ 53 * 2 ^ s" by linarith
      then have "(of_int k :: rat) < 2 * 2 ^ s" by simp
      then have "(of_int k :: rat) < of_int (2 ^ (s + 1))" by simp
      then have "k < 2 ^ (s + 1)" by (simp only: of_int_less_iff)
      then show False using False by simp
    qed
    have "(2::int) ^ 53 \<le> 2 ^ (s + 1)" unfolding s1074 by simp
    then have nk: "n < k" using big n(2) by linarith
    then have q0: "?q = 0" using n(1) by simp
    have "(of_int (2 ^ (s + 1)) :: rat) \<le> of_int k" using big by (simp only: of_int_le_iff)
    then have k2: "2 * (2::rat) ^ s \<le> of_int k" by simp
    have n0: "(0::rat) \<le> of_int n" using n(1) by simp
    have "(of_int n :: rat) * (2 * 2 ^ s) \<le> of_int n * of_int k"
      using k2 n0 by (rule mult_left_mono)
    then have "(of_int n :: rat) * (2 * 2 ^ s) / of_int k \<le> of_int n"
      using kr by (simp only: pos_divide_le_eq)
    then have y2: "?y * 2 \<le> of_int n" by (simp add: mult.commute mult.left_commute)
    have "(of_int n :: rat) < of_int (2 ^ 53)" using n(2) by (simp only: of_int_less_iff)
    then have "(of_int n :: rat) < 2 ^ 53" by simp
    with y2 have "?y * 2 < 2 ^ 53" by (rule le_less_trans)
    then have "?y < 2 ^ 52" by (rule half_bound)
    then have "?y < of_int (2 ^ 52)" by simp
    then have "\<lfloor>?y\<rfloor> < 2 ^ 52" by (simp only: floor_less_iff)
    then have "?m \<le> 2 ^ 52" using rne_le_floor1 [of ?y] by linarith
    moreover have "(2::int) ^ 52 \<le> 2 ^ s - 1" unfolding s1074 by simp
    ultimately show ?thesis unfolding q0 by simp
  qed
  show ?thesis
  proof (rule floor_unique)
    have "(of_int (?q * 2 ^ s) :: rat) \<le> of_int ?m" using lo by (simp only: of_int_le_iff)
    then show "of_int ?q \<le> (of_int ?m :: rat) / 2 ^ s" using p2 by (simp add: pos_le_divide_eq)
    have "?m < (?q + 1) * 2 ^ s" using hi by simp
    then have "(of_int ?m :: rat) < of_int ((?q + 1) * 2 ^ s)" by (simp only: of_int_less_iff)
    then show "(of_int ?m :: rat) / 2 ^ s < of_int ?q + 1" using p2 by (simp add: pos_divide_less_eq)
  qed
qed

lemma int_truediv_pos:
  assumes "0 \<le> a" "a < 2 ^ 53" "0 < b"
  shows "int_truediv a b = Inr (a div b)"
proof (cases "a = 0")
  case True
  then show ?thesis using assms(3) by (simp add: int_truediv_def round64_def trunc_def)
next
  case False
  then have a: "0 < a" using assms(1) by simp
  let ?x = "of_int a / of_int b :: rat"
  let ?s = "shift_up 1074 ?x"
  let ?m = "rne (?x * 2 ^ ?s)"
  have br: "(0::rat) < of_int b" using assms(3) by simp
  have x0: "0 < ?x" using a br by simp
  have "1 \<le> b" using assms(3) by simp
  then have "(of_int 1 :: rat) \<le> of_int b" by (simp only: of_int_le_iff)
  then have b1: "(1::rat) \<le> of_int b" by simp
  have "(of_int a :: rat) * 1 \<le> of_int a * of_int b"
    using b1 by (rule mult_left_mono) (use a in simp)
  then have "?x \<le> of_int a" using br by (simp add: pos_divide_le_eq)
  moreover have "(of_int a :: rat) < of_int (2 ^ 53)" using assms(2) by (simp only: of_int_less_iff)
  ultimately have x53: "?x < 2 ^ 53" by simp
  have xne: "?x \<noteq> 0" using x0 by (rule less_imp_neq [symmetric])
  have r: "round64 ?x = Finite (of_int ?m / 2 ^ ?s)"
    by (simp only: round64_def round_pos_def Let_def xne x0 x53 if_False if_True)
  have fl: "\<lfloor>(of_int ?m :: rat) / 2 ^ ?s\<rfloor> = a div b"
    using a assms(2) assms(3)
  proof (rule floor_scaled_rne)
    show "?s < 1074 \<longrightarrow> 2 ^ 52 \<le> ?x * 2 ^ ?s" using shift_up_reach [of 1074 ?x] by blast
    show "?s \<le> 1074" by (rule shift_up_le)
  qed
  have "0 \<le> ?x" using x0 by (rule less_imp_le)
  moreover have "(0::rat) \<le> 2 ^ ?s" by simp
  ultimately have "0 \<le> ?x * 2 ^ ?s" by (rule mult_nonneg_nonneg)
  then have "0 \<le> \<lfloor>?x * 2 ^ ?s\<rfloor>" by (simp only: zero_le_floor)
  then have "0 \<le> ?m" using rne_ge_floor [of "?x * 2 ^ ?s"] by linarith
  then have "\<not> (of_int ?m :: rat) / 2 ^ ?s < 0" by (simp add: not_less)
  then have "trunc (of_int ?m / 2 ^ ?s) = a div b" using fl by (simp only: trunc_def if_False)
  then show ?thesis using assms(3) by (simp add: int_truediv_def r)
qed

lemma half_le_scaled: "2 ^ 52 \<le> (y::rat) \<Longrightarrow> 1 / 2 \<le> y / 2 ^ 53"
  by simp

lemma round_pos_error:
  assumes x: "0 < x" and n: "1 / 2 ^ 1022 \<le> x" and z: "round_pos x = Finite z"
  shows "\<bar>z - x\<bar> \<le> x / 2 ^ 53"
proof (cases "x < 2 ^ 53")
  case True
  let ?s = "shift_up 1074 x"
  let ?m = "rne (x * 2 ^ ?s)"
  have zz: "z = of_int ?m / 2 ^ ?s"
    using z True by (simp add: round_pos_def Let_def)
  have "(2::rat) ^ 52 \<le> (1 / 2 ^ 1022) * 2 ^ 1074" by simp
  also have "\<dots> \<le> x * 2 ^ 1074" using n by (simp only: mult_le_cancel_right_pos zero_less_power zero_less_numeral)
  finally have "2 ^ 52 \<le> x * 2 ^ ?s" by (rule shift_up_normal)
  then have lo: "(1::rat) / 2 \<le> x * 2 ^ ?s / 2 ^ 53" by (rule half_le_scaled)
  have "\<bar>of_int ?m - x * 2 ^ ?s\<bar> \<le> 1 / 2" by (rule rne_abs)
  then have "\<bar>of_int ?m - x * 2 ^ ?s\<bar> \<le> x * 2 ^ ?s / 2 ^ 53" using lo by (rule order_trans)
  then have "\<bar>of_int ?m - x * 2 ^ ?s\<bar> / 2 ^ ?s \<le> (x * 2 ^ ?s / 2 ^ 53) / 2 ^ ?s"
    by (simp only: divide_le_cancel zero_less_power zero_less_numeral) simp
  moreover have "\<bar>of_int ?m - x * 2 ^ ?s\<bar> / 2 ^ ?s = \<bar>of_int ?m / 2 ^ ?s - x\<bar>"
  proof -
    have "(of_int ?m - x * 2 ^ ?s) / 2 ^ ?s = of_int ?m / 2 ^ ?s - x"
      by (simp add: diff_divide_distrib)
    then have "\<bar>(of_int ?m - x * 2 ^ ?s) / 2 ^ ?s\<bar> = \<bar>of_int ?m / 2 ^ ?s - x\<bar>" by simp
    then show ?thesis by (simp only: abs_divide power_abs abs_numeral)
  qed
  moreover have "(x * 2 ^ ?s / 2 ^ 53) / 2 ^ ?s = x / 2 ^ 53" by simp
  ultimately show ?thesis unfolding zz by simp
next
  case False
  let ?e = "shift_down 972 x"
  let ?m = "rne (x / 2 ^ ?e)"
  have zz: "z = of_int ?m * 2 ^ ?e"
    using z False by (simp add: round_pos_def Let_def split: if_splits)
  have "(2::rat) ^ 52 \<le> x" using False by simp
  then have "2 ^ 52 \<le> x / 2 ^ ?e" by (rule shift_down_lower)
  then have lo: "(1::rat) / 2 \<le> x / 2 ^ ?e / 2 ^ 53" by (rule half_le_scaled)
  have "\<bar>of_int ?m - x / 2 ^ ?e\<bar> \<le> 1 / 2" by (rule rne_abs)
  then have "\<bar>of_int ?m - x / 2 ^ ?e\<bar> \<le> x / 2 ^ ?e / 2 ^ 53" using lo by (rule order_trans)
  then have "\<bar>of_int ?m - x / 2 ^ ?e\<bar> * 2 ^ ?e \<le> (x / 2 ^ ?e / 2 ^ 53) * 2 ^ ?e"
    by (simp only: mult_le_cancel_right_pos zero_less_power zero_less_numeral)
  moreover have "\<bar>of_int ?m - x / 2 ^ ?e\<bar> * 2 ^ ?e = \<bar>of_int ?m * 2 ^ ?e - x\<bar>"
  proof -
    have "(of_int ?m - x / 2 ^ ?e) * 2 ^ ?e = of_int ?m * 2 ^ ?e - x"
      by (simp add: left_diff_distrib)
    then have "\<bar>(of_int ?m - x / 2 ^ ?e) * 2 ^ ?e\<bar> = \<bar>of_int ?m * 2 ^ ?e - x\<bar>" by simp
    then show ?thesis by (simp only: abs_mult power_abs abs_numeral)
  qed
  moreover have "(x / 2 ^ ?e / 2 ^ 53) * 2 ^ ?e = x / 2 ^ 53" by simp
  ultimately show ?thesis unfolding zz by simp
qed

lemma fneg_Finite: "fneg f = Finite z \<Longrightarrow> \<exists>w. f = Finite w \<and> z = - w"
  by (cases f) simp_all

lemma round64_error:
  assumes n: "1 / 2 ^ 1022 \<le> \<bar>x\<bar>" and z: "round64 x = Finite z"
  shows "\<bar>z - x\<bar> \<le> \<bar>x\<bar> / 2 ^ 53"
proof (cases "0 < x")
  case True
  then have "round_pos x = Finite z" using z by (simp add: round64_def)
  moreover have "1 / 2 ^ 1022 \<le> x" using n True by simp
  ultimately have "\<bar>z - x\<bar> \<le> x / 2 ^ 53" using True by (intro round_pos_error)
  then show ?thesis using True by simp
next
  case False
  have "x \<noteq> 0"
  proof
    assume "x = 0"
    then have "(1::rat) / 2 ^ 1022 \<le> 0" using n by simp
    then show False by simp
  qed
  then have neg: "x < 0" using False by simp
  then have "fneg (round_pos (- x)) = Finite z" using z by (simp add: round64_def)
  then obtain w where w: "round_pos (- x) = Finite w" "z = - w" using fneg_Finite by blast
  have "1 / 2 ^ 1022 \<le> - x" using n neg by simp
  moreover have "0 < - x" using neg by simp
  ultimately have "\<bar>w - (- x)\<bar> \<le> (- x) / 2 ^ 53" using w(1) by (intro round_pos_error)
  moreover have "\<bar>w - (- x)\<bar> = \<bar>z - x\<bar>" unfolding w(2) by (simp add: abs_minus_commute)
  ultimately show ?thesis using neg by simp
qed

lemma round_trip_bound:
  fixes v p a b :: rat
  assumes p: "p \<noteq> 0"
    and ea: "\<bar>a - v * p\<bar> \<le> \<bar>v * p\<bar> / 2 ^ 53"
    and eb: "\<bar>b - a / p\<bar> \<le> \<bar>a / p\<bar> / 2 ^ 53"
  shows "\<bar>b - v\<bar> \<le> 3 * \<bar>v\<bar> / 2 ^ 53"
proof -
  define u :: rat where "u = 1 / 2 ^ 53"
  have u0: "0 \<le> u" and u1: "u \<le> 1" by (simp_all add: u_def)
  have pp: "0 < \<bar>p\<bar>" using p by simp
  have ea': "\<bar>a - v * p\<bar> \<le> u * (\<bar>v\<bar> * \<bar>p\<bar>)" using ea by (simp add: u_def abs_mult)
  have "a / p - v = (a - v * p) / p" using p by (simp add: diff_divide_distrib)
  then have "\<bar>a / p - v\<bar> = \<bar>a - v * p\<bar> / \<bar>p\<bar>" by (simp only: abs_divide)
  also have "\<dots> \<le> (u * (\<bar>v\<bar> * \<bar>p\<bar>)) / \<bar>p\<bar>"
    using ea' pp by (simp only: divide_le_cancel) simp
  also have "\<dots> = u * \<bar>v\<bar>" using p by simp
  finally have d1: "\<bar>a / p - v\<bar> \<le> u * \<bar>v\<bar>" .
  have "\<bar>a / p\<bar> \<le> \<bar>a / p - v\<bar> + \<bar>v\<bar>"
    by (metis abs_triangle_ineq diff_add_cancel)
  then have ap: "\<bar>a / p\<bar> \<le> u * \<bar>v\<bar> + \<bar>v\<bar>" using d1 by linarith
  have "\<bar>b - a / p\<bar> \<le> u * \<bar>a / p\<bar>" using eb by (simp add: u_def)
  also have "\<dots> \<le> u * (u * \<bar>v\<bar> + \<bar>v\<bar>)" using ap u0 by (rule mult_left_mono)
  also have "\<dots> \<le> 1 * (u * \<bar>v\<bar>) + u * \<bar>v\<bar>"
  proof -
    have "u * (u * \<bar>v\<bar>) \<le> 1 * (u * \<bar>v\<bar>)"
      using u1 by (rule mult_right_mono) (simp add: u0)
    then show ?thesis by (simp add: distrib_left)
  qed
  finally have d2: "\<bar>b - a / p\<bar> \<le> 2 * (u * \<bar>v\<bar>)" by simp
  have "\<bar>b - v\<bar> \<le> \<bar>b - a / p\<bar> + \<bar>a / p - v\<bar>"
    by (metis abs_triangle_ineq diff_add_cancel add_diff_eq diff_diff_eq2 add.commute)
  then have "\<bar>b - v\<bar> \<le> 3 * (u * \<bar>v\<bar>)" using d1 d2 by linarith
  then show ?thesis by (simp add: u_def)
qed

section \<open>Properties of the draw allocation\<close>

lemma replicate_Suc_update: "(replicate (Suc m) x) [m := v] = replicate m x @ [v]"
proof -
  have "replicate (Suc m) x = replicate m x @ [x]"
    by (simp add: replicate_append_same)
  then have "(replicate (Suc m) x) [m := v] = (replicate m x @ [x]) [length (replicate m x) := v]"
    by simp
  then show ?thesis by (simp only: list_update_length)
qed

lemma div_mult_le_int: "0 < (k::int) \<Longrightarrow> n div k * k \<le> n"
  using div_mult_mod_eq [of n k] pos_mod_sign [of k n] by linarith

lemma np_sum_replicate_int:
  "0 < n \<Longrightarrow> np_sum (replicate n (PyInt b)) = PyInt (int n * b)"
  by (simp add: np_sum_def mk_num_def list_ex_iff sum_list_replicate)

lemma iteration_n_draws_eq:
  assumes "0 \<le> H" "0 < n" "n < 2 ^ 53"
  shows "iteration_n_draws H n =
           Inr (replicate (nat H) (PyInt (n div (H + 1))) @
                [PyInt (n div (H + 1) + (n - (H + 1) * (n div (H + 1))))])"
proof -
  let ?b = "n div (H + 1)"
  have k: "nat (H + 1) = Suc (nat H)" using assms by simp
  have d: "int_truediv n (H + 1) = Inr ?b"
    using assms by (intro int_truediv_pos) simp_all
  have s: "np_sum (replicate (Suc (nat H)) (PyInt ?b)) = PyInt (int (Suc (nat H)) * ?b)"
    by (rule np_sum_replicate_int) simp
  have i: "int (Suc (nat H)) = H + 1" using assms by simp
  have u: "(replicate (Suc (nat H)) (PyInt ?b)) [nat H := v] = replicate (nat H) (PyInt ?b) @ [v]"
    for v
    by (rule replicate_Suc_update)
  have l: "last (replicate (Suc (nat H)) (PyInt ?b)) = PyInt ?b"
    by (simp del: replicate_Suc)
  show ?thesis
    unfolding iteration_n_draws_def Let_def d k
    by (simp only: sum.case s l u i length_replicate diff_Suc_1 replicate_empty
        nat.distinct if_False num_add_def num_sub_def mk_num_def is_float.simps
        num_val.simps simp_thms)
qed

text \<open>
  Claim C2 without a bound on the draw budget does not hold: the quotient
  \<open>int(n_draws / (H + 1))\<close> is taken through a float. At \<open>H = 2\<close> and a draw
  budget of \<open>10 ^ 17\<close> the float nearest to the quotient is \<open>33333333333333332\<close>, one
  below the floor, so the first entries are not the floor of the quotient and the last
  entry is not the base plus the remainder of the integer division.
\<close>

theorem draw_allocation_large_budget:
  "iteration_n_draws 2 (10 ^ 17) =
     Inr [PyInt 33333333333333332, PyInt 33333333333333332, PyInt 33333333333333336]
   \<and> (10 ^ 17 :: int) div (2 + 1) = 33333333333333333
   \<and> (10 ^ 17 :: int) - (10 ^ 17 div (2 + 1)) * (2 + 1) = 1"
  by code_simp

text \<open>
  Claim C2. For a holdout count \<open>H \<ge> 0\<close> and a draw budget \<open>0 < n < 2 ^ 53\<close> (every integer
  below \<open>2 ^ 53\<close> is a float, and the rounded quotient then truncates to the floor) the
  allocation succeeds and has \<open>H + 1\<close> entries, paired with the depths \<open>0, ..., H\<close> in
  ascending order; each of the first \<open>H\<close> entries is \<open>n div (H + 1)\<close>; the last entry is
  that base plus the remainder \<open>n - (n div (H + 1)) * (H + 1)\<close>; the entries sum to \<open>n\<close>;
  every entry is an integer at least the base; \<open>H = 0\<close> gives the single entry \<open>n\<close>; and
  \<open>H = 2\<close>, \<open>n = 10\<close> gives \<open>[3, 3, 4]\<close>.
\<close>

theorem draw_allocation:
  assumes "0 \<le> H" "0 < n" "n < 2 ^ 53"
  shows "(\<exists>ds. iteration_n_draws H n = Inr ds
           \<and> length ds = nat H + 1
           \<and> holdout_plan H n = Inr (zip (map (\<lambda>h. PyInt (int h)) [0 ..< nat H + 1]) ds)
           \<and> (\<forall>i < nat H. ds ! i = PyInt (n div (H + 1)))
           \<and> last ds = PyInt (n div (H + 1) + (n - (n div (H + 1)) * (H + 1)))
           \<and> sum_list (map num_val ds) = n
           \<and> (\<forall>d \<in> set ds. \<not> is_float d \<and> n div (H + 1) \<le> num_val d)
           \<and> (H = 0 \<longrightarrow> ds = [PyInt n]))
         \<and> iteration_n_draws 2 10 = Inr [PyInt 3, PyInt 3, PyInt 4]"
proof -
  let ?b = "n div (H + 1)"
  let ?r = "n - ?b * (H + 1)"
  let ?ds = "replicate (nat H) (PyInt ?b) @ [PyInt (?b + ?r)]"
  have e: "iteration_n_draws H n = Inr ?ds"
    using iteration_n_draws_eq [OF assms] by (simp add: mult.commute)
  have r0: "0 \<le> ?r"
  proof -
    have "?b * (H + 1) \<le> n"
      using assms(1) by (intro div_mult_le_int) simp
    then show ?thesis by simp
  qed
  have len: "length ?ds = nat H + 1" by simp
  have plan: "holdout_plan H n = Inr (zip (map (\<lambda>h. PyInt (int h)) [0 ..< nat H + 1]) ?ds)"
    using assms
    by (simp add: holdout_plan_def e holdout_depths_def np_arange_def mk_num_def
        nat_add_distrib del: upt_Suc)
  have first: "\<forall>i < nat H. ?ds ! i = PyInt ?b"
    by (simp add: nth_append)
  have lst: "last ?ds = PyInt (?b + ?r)" by simp
  have sm: "sum_list (map num_val ?ds) = n"
  proof -
    have "sum_list (map num_val ?ds) = int (nat H) * ?b + (?b + ?r)"
      by (simp add: sum_list_replicate)
    also have "\<dots> = H * ?b + (?b + ?r)" using assms by simp
    also have "\<dots> = n" by (simp add: algebra_simps)
    finally show ?thesis .
  qed
  have ge: "\<forall>d \<in> set ?ds. \<not> is_float d \<and> ?b \<le> num_val d"
    using r0 by auto
  have h0: "H = 0 \<longrightarrow> ?ds = [PyInt n]" by simp
  have general: "\<exists>ds. iteration_n_draws H n = Inr ds
           \<and> length ds = nat H + 1
           \<and> holdout_plan H n = Inr (zip (map (\<lambda>h. PyInt (int h)) [0 ..< nat H + 1]) ds)
           \<and> (\<forall>i < nat H. ds ! i = PyInt (n div (H + 1)))
           \<and> last ds = PyInt (n div (H + 1) + (n - (n div (H + 1)) * (H + 1)))
           \<and> sum_list (map num_val ds) = n
           \<and> (\<forall>d \<in> set ds. \<not> is_float d \<and> n div (H + 1) \<le> num_val d)
           \<and> (H = 0 \<longrightarrow> ds = [PyInt n])"
    using e len plan first lst sm ge h0 by blast
  have scenario: "iteration_n_draws 2 10 = Inr [PyInt 3, PyInt 3, PyInt 4]"
    using iteration_n_draws_eq [of 2 10] by (simp add: numeral_2_eq_2)
  show ?thesis using general scenario by (rule conjI)
qed

theorem draw_allocation_witness:
  "(0::int) \<le> 4 \<and> (0::int) < 23 \<and> (23::int) < 2 ^ 53
   \<and> (\<exists>ds. iteration_n_draws 4 23 = Inr ds \<and> length ds = 5
         \<and> ds ! 0 = PyInt 4 \<and> ds ! 3 = PyInt 4 \<and> last ds = PyInt 7
         \<and> sum_list (map num_val ds) = 23)"
proof -
  have h: "(0::int) \<le> 4" "(0::int) < 23" "(23::int) < 2 ^ 53" by simp_all
  from draw_allocation [OF h] obtain ds where
    "iteration_n_draws 4 23 = Inr ds" "length ds = nat 4 + 1"
    "\<forall>i < nat 4. ds ! i = PyInt (23 div (4 + 1))"
    "last ds = PyInt (23 div (4 + 1) + (23 - (23 div (4 + 1)) * (4 + 1)))"
    "sum_list (map num_val ds) = 23"
    by blast
  then show ?thesis by simp
qed

section \<open>Draw column names of the assembled ensemble\<close>

text \<open>
  The offset of an iteration after the first is an integer: the sum of the integer draw
  counts before it.
\<close>

lemma col_add_pos:
  assumes "0 < i" "ds \<noteq> []" "\<not> list_ex is_float ds"
  shows "col_add ds i = PyInt (sum_list (map num_val (take i ds)))"
proof -
  have "take i ds \<noteq> []" using assms by (cases ds; cases i) simp_all
  moreover have "\<not> list_ex is_float (take i ds)"
    using assms(3) by (auto simp: list_ex_iff dest: in_set_takeD)
  ultimately show ?thesis by (simp add: col_add_def np_sum_def mk_num_def)
qed

text \<open>The offset of the first iteration is the float \<^verbatim>\<open>0.0\<close>.\<close>

lemma col_add_0: "col_add ds 0 = NpFloat 0"
  by (simp add: col_add_def np_sum_def mk_num_def)

text \<open>
  So the names of an iteration after the first are \<^verbatim>\<open>draw_c .. draw_{c+d-1}\<close>, with \<open>c\<close>
  the sum of the draw counts before it, and the names of the first iteration are
  \<^verbatim>\<open>draw_0.0 .. draw_{d-1}.0\<close>.
\<close>

lemma new_cols_later:
  assumes "0 < i" "i < length ds" "\<not> list_ex is_float ds"
  shows "new_cols ds i =
           map (\<lambda>k. ''draw_'' @ show_int (int k + sum_list (map num_val (take i ds))))
             [0 ..< nat (num_val (ds ! i))]"
proof -
  have ne: "ds \<noteq> []" using assms(2) by auto
  have "\<not> is_float (ds ! i)" using assms(2,3) by (auto simp: list_ex_iff)
  then have a: "np_arange (ds ! i) = map (\<lambda>k. PyInt (int k)) [0 ..< nat (num_val (ds ! i))]"
    by (simp add: np_arange_def mk_num_def)
  show ?thesis
    unfolding new_cols_def a col_add_pos [OF assms(1) ne assms(3)]
    by (simp add: num_add_def mk_num_def)
qed

lemma new_cols_first:
  assumes "\<not> is_float (ds ! 0)"
  shows "new_cols ds 0 =
           map (\<lambda>k. ''draw_'' @ show_int (int k) @ ''.0'') [0 ..< nat (num_val (ds ! 0))]"
proof -
  have a: "np_arange (ds ! 0) = map (\<lambda>k. PyInt (int k)) [0 ..< nat (num_val (ds ! 0))]"
    using assms by (simp add: np_arange_def mk_num_def)
  show ?thesis
    unfolding new_cols_def a col_add_0
    by (simp add: num_add_def mk_num_def)
qed

text \<open>
  Claim C1, on the spec's own scenario \<open>H = 2\<close>, \<open>n_draws = 10\<close>. The allocation is
  \<open>[3, 3, 4]\<close>; the iterations of depth 1 and 2 are renamed to \<^verbatim>\<open>draw_3 .. draw_5\<close> and
  \<^verbatim>\<open>draw_6 .. draw_9\<close>; the iteration of depth 0 has the offset \<^verbatim>\<open>np.sum([])\<close>, a
  float, and its columns are renamed to \<^verbatim>\<open>draw_0.0, draw_1.0, draw_2.0\<close>. The
  assembled table has no column \<^verbatim>\<open>draw_0\<close>, \<^verbatim>\<open>draw_1\<close> or \<^verbatim>\<open>draw_2\<close>.
\<close>

theorem depth0_columns_renamed_with_float_offset:
  "iteration_n_draws 2 10 = Inr [PyInt 3, PyInt 3, PyInt 4]
   \<and> col_add [PyInt 3, PyInt 3, PyInt 4] 0 = NpFloat 0
   \<and> map (new_cols [PyInt 3, PyInt 3, PyInt 4]) [0, 1, 2] =
       [[''draw_0.0'', ''draw_1.0'', ''draw_2.0''],
        [''draw_3'', ''draw_4'', ''draw_5''],
        [''draw_6'', ''draw_7'', ''draw_8'', ''draw_9'']]
   \<and> map_sum id draw_cols_of
         (assembled_columns [''location_id'', ''Date'', ''population'']
            [PyInt 3, PyInt 3, PyInt 4]) =
       Inr [''draw_0.0'', ''draw_1.0'', ''draw_2.0'', ''draw_3'', ''draw_4'', ''draw_5'',
            ''draw_6'', ''draw_7'', ''draw_8'', ''draw_9'']"
proof -
  have a: "iteration_n_draws 2 10 = Inr [PyInt 3, PyInt 3, PyInt 4]"
    by code_simp
  have b: "col_add [PyInt 3, PyInt 3, PyInt 4] 0 = NpFloat 0"
    by (rule col_add_0)
  have c: "map (new_cols [PyInt 3, PyInt 3, PyInt 4]) [0, 1, 2] =
       [[''draw_0.0'', ''draw_1.0'', ''draw_2.0''],
        [''draw_3'', ''draw_4'', ''draw_5''],
        [''draw_6'', ''draw_7'', ''draw_8'', ''draw_9'']]"
    by code_simp
  have d: "map_sum id draw_cols_of
         (assembled_columns [''location_id'', ''Date'', ''population'']
            [PyInt 3, PyInt 3, PyInt 4]) =
       Inr [''draw_0.0'', ''draw_1.0'', ''draw_2.0'', ''draw_3'', ''draw_4'', ''draw_5'',
            ''draw_6'', ''draw_7'', ''draw_8'', ''draw_9'']"
    by code_simp
  show ?thesis using a b c d by (intro conjI)
qed

section \<open>Tail blanking of one channel\<close>

lemma length_blank_at: "length (blank_at idx data) = length data"
  unfolding blank_at_def by (induction idx arbitrary: data) simp_all

lemma nth_blank_at:
  "i < length data \<Longrightarrow> blank_at idx data ! i = (if i \<in> set idx then None else data ! i)"
  unfolding blank_at_def
proof (induction idx arbitrary: data)
  case Nil
  then show ?case by simp
next
  case (Cons j idx)
  then show ?case by (simp add: nth_list_update)
qed

lemma set_argwhere: "set (argwhere_notnan data) = {i. i < length data \<and> data ! i \<noteq> None}"
  by (auto simp: argwhere_notnan_def)

lemma sorted_argwhere: "sorted (argwhere_notnan data)"
  unfolding argwhere_notnan_def using sorted_filter [of id "[0 ..< length data]"] by simp

lemma distinct_argwhere: "distinct (argwhere_notnan data)"
  by (simp add: argwhere_notnan_def)

lemma card_notnan:
  "card {i. i < length data \<and> data ! i \<noteq> None} = length (filter (\<lambda>v. v \<noteq> None) data)"
  by (simp only: length_filter_conv_card)

lemma length_argwhere: "length (argwhere_notnan data) = length (filter (\<lambda>v. v \<noteq> None) data)"
  using distinct_card [OF distinct_argwhere, of data] by (simp only: set_argwhere card_notnan)

lemma slice_from_neg:
  assumes "0 < h"
  shows "slice_from (- h) xs = drop (length xs - min (nat h) (length xs)) xs"
proof -
  have "nat (int (length xs) - h) = length xs - nat h"
    using assms by (simp add: nat_diff_distrib')
  also have "\<dots> = length xs - min (nat h) (length xs)" by simp
  finally show ?thesis using assms by (simp add: slice_from_def)
qed

lemma drop_days_nth:
  assumes "0 \<le> h" "i < length data"
  shows "drop_days_by_indicator data h ! i =
           (if i \<in> set (blanked_idx data h) then None else data ! i)"
proof (cases "0 < h")
  case True
  then show ?thesis
    using assms(2)
    by (simp add: drop_days_by_indicator_def slice_from_neg nth_blank_at blanked_idx_def Let_def)
next
  case False
  then have "h = 0" using assms by simp
  then show ?thesis by (simp add: drop_days_by_indicator_def blanked_idx_def)
qed

lemma length_drop_days: "length (drop_days_by_indicator data h) = length data"
  by (simp add: drop_days_by_indicator_def length_blank_at)

lemma blanked_idx_props:
  shows "set (blanked_idx data h) \<subseteq> {i. i < length data \<and> data ! i \<noteq> None}"
    and "distinct (blanked_idx data h)"
    and "length (blanked_idx data h) = min (nat h) (length (filter (\<lambda>v. v \<noteq> None) data))"
proof -
  show "set (blanked_idx data h) \<subseteq> {i. i < length data \<and> data ! i \<noteq> None}"
    unfolding blanked_idx_def Let_def set_argwhere [symmetric] by (rule set_drop_subset)
  show "distinct (blanked_idx data h)"
    by (simp add: blanked_idx_def Let_def distinct_argwhere)
  show "length (blanked_idx data h) = min (nat h) (length (filter (\<lambda>v. v \<noteq> None) data))"
    by (simp add: blanked_idx_def Let_def length_argwhere)
qed

lemma blanked_idx_upward:
  assumes "i \<in> set (blanked_idx data h)" "i < j" "j < length data" "data ! j \<noteq> None"
  shows "j \<in> set (blanked_idx data h)"
proof (rule ccontr)
  let ?A = "argwhere_notnan data"
  let ?n = "length ?A - min (nat h) (length ?A)"
  assume n: "j \<notin> set (blanked_idx data h)"
  have "j \<in> set ?A" using assms by (simp add: set_argwhere)
  then have "j \<in> set (take ?n ?A @ drop ?n ?A)" by simp
  then have j: "j \<in> set (take ?n ?A)"
    using n by (simp add: blanked_idx_def Let_def del: append_take_drop_id)
  have i: "i \<in> set (drop ?n ?A)" using assms(1) by (simp add: blanked_idx_def Let_def)
  have "sorted (take ?n ?A @ drop ?n ?A)" using sorted_argwhere [of data] by simp
  then have "j \<le> i" using i j unfolding sorted_append by blast
  then show False using assms(2) by simp
qed

lemma blanked_set_eq:
  assumes "0 \<le> h"
  shows "{i. i < length data \<and> data ! i \<noteq> None \<and> drop_days_by_indicator data h ! i = None}
           = set (blanked_idx data h)"
  using blanked_idx_props(1) [of data h]
  by (auto simp: drop_days_nth [OF assms] split: if_splits)

lemma drop_days_unchanged_or_blanked:
  assumes "0 \<le> h" "i < length data"
  shows "drop_days_by_indicator data h ! i = data ! i
           \<or> (data ! i \<noteq> None \<and> drop_days_by_indicator data h ! i = None)"
proof (cases "i \<in> set (blanked_idx data h)")
  case True
  then have "data ! i \<noteq> None" using blanked_idx_props(1) [of data h] by blast
  then show ?thesis using True by (simp only: drop_days_nth [OF assms] if_True simp_thms)
next
  case False
  then show ?thesis by (simp only: drop_days_nth [OF assms] if_False simp_thms)
qed

lemma drop_days_most_recent:
  assumes "0 \<le> h" "i < length data" "data ! i \<noteq> None"
    "drop_days_by_indicator data h ! i = None"
    "i < j" "j < length data" "data ! j \<noteq> None"
  shows "drop_days_by_indicator data h ! j = None"
proof -
  have "i \<in> set (blanked_idx data h)"
    using assms(2,3,4) blanked_set_eq [OF assms(1), of data] by blast
  then have "j \<in> set (blanked_idx data h)"
    using assms(5,6,7) by (rule blanked_idx_upward)
  then show ?thesis by (simp only: drop_days_nth [OF assms(1,6)] if_True)
qed

lemma card_blanked:
  assumes "0 \<le> h"
  shows "card {i. i < length data \<and> data ! i \<noteq> None \<and> drop_days_by_indicator data h ! i = None}
           = min (nat h) (length (filter (\<lambda>v. v \<noteq> None) data))"
  unfolding blanked_set_eq [OF assms]
  using distinct_card [OF blanked_idx_props(2), of data h]
  by (simp only: blanked_idx_props(3))

lemma notnan_after_blanking:
  assumes "0 \<le> h"
  shows "{i. i < length (drop_days_by_indicator data h) \<and> drop_days_by_indicator data h ! i \<noteq> None}
           = {i. i < length data \<and> data ! i \<noteq> None} - set (blanked_idx data h)"
    (is "?L = ?R")
proof (rule set_eqI)
  fix i
  show "i \<in> ?L \<longleftrightarrow> i \<in> ?R"
  proof (cases "i < length data")
    case True
    show ?thesis
    proof (cases "i \<in> set (blanked_idx data h)")
      case b: True
      then show ?thesis using True
        by (simp only: mem_Collect_eq length_drop_days drop_days_nth [OF assms True] if_True
            Diff_iff simp_thms)
    next
      case b: False
      then show ?thesis using True
        by (simp only: mem_Collect_eq length_drop_days drop_days_nth [OF assms True] if_False
            Diff_iff simp_thms)
    qed
  next
    case False
    then show ?thesis by (simp only: mem_Collect_eq length_drop_days Diff_iff simp_thms)
  qed
qed

lemma count_after_blanking:
  assumes "0 \<le> h"
  shows "length (filter (\<lambda>v. v \<noteq> None) (drop_days_by_indicator data h))
           = length (filter (\<lambda>v. v \<noteq> None) data)
             - min (nat h) (length (filter (\<lambda>v. v \<noteq> None) data))"
proof -
  let ?N = "{i. i < length data \<and> data ! i \<noteq> None}"
  let ?D = "set (blanked_idx data h)"
  have "card (?N - ?D) = card ?N - card ?D"
    using blanked_idx_props(1) [of data h] by (intro card_Diff_subset) simp_all
  also have "card ?D = min (nat h) (length (filter (\<lambda>v. v \<noteq> None) data))"
    using distinct_card [OF blanked_idx_props(2), of data h]
    by (simp only: blanked_idx_props(3))
  finally show ?thesis
    unfolding notnan_after_blanking [OF assms, symmetric] card_notnan .
qed

section \<open>Tail blanking of a frame\<close>

lemma get_set_cell: "get_cell ind (set_cell ind' v r) = (if ind = ind' then v else get_cell ind r)"
  by (cases ind; cases ind') simp_all

lemma Date_set_cell: "Date (set_cell ind v r) = Date r"
  by (cases ind) simp_all

lemma set_get_cell: "set_cell ind (get_cell ind r) r = r"
  by (cases ind) simp_all

lemma length_assign_column:
  "length vals = length fr \<Longrightarrow> length (assign_column ind vals fr) = length fr"
  by (simp add: assign_column_def)

lemma column_assign_column:
  "length vals = length fr \<Longrightarrow>
     column ind (assign_column ind' vals fr) = (if ind = ind' then vals else column ind fr)"
  unfolding column_def assign_column_def
  by (induction vals fr rule: list_induct2) (simp_all add: get_set_cell)

lemma Date_assign_column:
  "length vals = length fr \<Longrightarrow> map Date (assign_column ind vals fr) = map Date fr"
  unfolding assign_column_def
  by (induction vals fr rule: list_induct2) (simp_all add: Date_set_cell)

lemma assign_column_same: "assign_column ind (column ind fr) fr = fr"
  unfolding column_def assign_column_def
  by (induction fr) (simp_all add: set_get_cell)

lemma length_column: "length (column ind fr) = length fr"
  by (simp add: column_def)

lemma blank_step_props:
  shows "length (blank_step h f ind) = length f"
    and "column ind' (blank_step h f ind) =
           (if ind' = ind then drop_days_by_indicator (column ind f) h else column ind' f)"
    and "map Date (blank_step h f ind) = map Date f"
  unfolding blank_step_def
  by (simp_all add: length_assign_column column_assign_column Date_assign_column
      length_drop_days length_column)

lemma blank_indicators_steps:
  "blank_indicators h fr =
     blank_step h (blank_step h (blank_step h fr DeathRate) ConfirmedCaseRate) HospitalizationRate"
  by (simp add: blank_indicators_def indicators_def)

lemma column_blank_indicators:
  "column ind (blank_indicators h fr) = drop_days_by_indicator (column ind fr) h"
  unfolding blank_indicators_steps by (cases ind) (simp_all add: blank_step_props)

lemma Date_blank_indicators: "map Date (blank_indicators h fr) = map Date fr"
  unfolding blank_indicators_steps by (simp add: blank_step_props)

lemma length_blank_indicators: "length (blank_indicators h fr) = length fr"
  unfolding blank_indicators_steps by (simp add: blank_step_props)

lemma blank_indicators_0: "blank_indicators 0 fr = fr"
  by (simp add: blank_indicators_def indicators_def blank_step_def drop_days_by_indicator_def
      assign_column_same)

lemma all_null_iff:
  "all_null r \<longleftrightarrow>
     Death_rate r = None \<and> Confirmed_case_rate r = None \<and> Hospitalization_rate r = None"
  by (simp add: all_null_def indicators_def)

text \<open>
  Claim C3. For a depth \<open>h \<ge> 0\<close> and a channel with \<open>m\<close> values that are not NaN,
  \<open>drop_days_by_indicator\<close> keeps the length; the positions it turns from a value into
  NaN are exactly \<open>min h m\<close> many; they are the most recent ones (every later position
  holding a value is blanked as well); every other position keeps what it held; \<open>m\<close>
  minus \<open>min h m\<close> values remain; and depth 0 changes nothing. On the frame, each of
  the three indicator columns after the loop is the blanking of that same column alone,
  the dates are unchanged, depth 0 leaves the frame as it was, and the filter of line 38
  removes only the rows whose three indicators are all NaN.
\<close>

theorem tail_blanking:
  fixes data :: "'a option list" and fr :: frame
  assumes "0 \<le> h"
  shows "length (drop_days_by_indicator data h) = length data
    \<and> card {i. i < length data \<and> data ! i \<noteq> None \<and> drop_days_by_indicator data h ! i = None}
         = min (nat h) (length (filter (\<lambda>v. v \<noteq> None) data))
    \<and> (\<forall>i j. i < length data \<and> data ! i \<noteq> None \<and> drop_days_by_indicator data h ! i = None
            \<and> i < j \<and> j < length data \<and> data ! j \<noteq> None
          \<longrightarrow> drop_days_by_indicator data h ! j = None)
    \<and> (\<forall>i < length data. drop_days_by_indicator data h ! i = data ! i
            \<or> (data ! i \<noteq> None \<and> drop_days_by_indicator data h ! i = None))
    \<and> length (filter (\<lambda>v. v \<noteq> None) (drop_days_by_indicator data h))
         = length (filter (\<lambda>v. v \<noteq> None) data)
           - min (nat h) (length (filter (\<lambda>v. v \<noteq> None) data))
    \<and> (h = 0 \<longrightarrow> drop_days_by_indicator data h = data)
    \<and> (\<forall>ind. column ind (blank_indicators h fr) = drop_days_by_indicator (column ind fr) h)
    \<and> map Date (blank_indicators h fr) = map Date fr
    \<and> (h = 0 \<longrightarrow> blank_indicators h fr = fr)
    \<and> drop_null_rows (blank_indicators h fr)
         = filter (\<lambda>r. Death_rate r \<noteq> None \<or> Confirmed_case_rate r \<noteq> None
                        \<or> Hospitalization_rate r \<noteq> None) (blank_indicators h fr)"
proof (intro conjI allI impI)
  show "length (drop_days_by_indicator data h) = length data"
    by (rule length_drop_days)
  show "card {i. i < length data \<and> data ! i \<noteq> None \<and> drop_days_by_indicator data h ! i = None}
         = min (nat h) (length (filter (\<lambda>v. v \<noteq> None) data))"
    by (rule card_blanked [OF assms])
  show "drop_days_by_indicator data h ! j = None"
    if "i < length data \<and> data ! i \<noteq> None \<and> drop_days_by_indicator data h ! i = None
            \<and> i < j \<and> j < length data \<and> data ! j \<noteq> None" for i j
    using that drop_days_most_recent [OF assms, of i data j] by blast
  show "drop_days_by_indicator data h ! i = data ! i
            \<or> (data ! i \<noteq> None \<and> drop_days_by_indicator data h ! i = None)"
    if "i < length data" for i
    using that by (rule drop_days_unchanged_or_blanked [OF assms])
  show "length (filter (\<lambda>v. v \<noteq> None) (drop_days_by_indicator data h))
         = length (filter (\<lambda>v. v \<noteq> None) data)
           - min (nat h) (length (filter (\<lambda>v. v \<noteq> None) data))"
    by (rule count_after_blanking [OF assms])
  show "drop_days_by_indicator data h = data" if "h = 0"
    using that by (simp add: drop_days_by_indicator_def)
  show "column ind (blank_indicators h fr) = drop_days_by_indicator (column ind fr) h" for ind
    by (rule column_blank_indicators)
  show "map Date (blank_indicators h fr) = map Date fr"
    by (rule Date_blank_indicators)
  show "blank_indicators h fr = fr" if "h = 0"
    using that by (simp add: blank_indicators_0)
  show "drop_null_rows (blank_indicators h fr)
         = filter (\<lambda>r. Death_rate r \<noteq> None \<or> Confirmed_case_rate r \<noteq> None
                        \<or> Hospitalization_rate r \<noteq> None) (blank_indicators h fr)"
    unfolding drop_null_rows_def all_null_iff by (simp only: de_Morgan_conj)
qed

theorem tail_blanking_witness:
  "(0::int) \<le> 2
   \<and> card {i. i < length [Some (4::real), None, Some 6, Some 7, None]
              \<and> [Some (4::real), None, Some 6, Some 7, None] ! i \<noteq> None
              \<and> drop_days_by_indicator [Some (4::real), None, Some 6, Some 7, None] 2 ! i = None} = 2
   \<and> length (filter (\<lambda>v. v \<noteq> None)
        (drop_days_by_indicator [Some (4::real), None, Some 6, Some 7, None] 2)) = 1
   \<and> drop_days_by_indicator [Some (4::real), None, Some 6, Some 7, None] 2
        = [Some 4, None, None, None, None]"
proof -
  let ?D = "[Some (4::real), None, Some 6, Some 7, None]"
  have h: "(0::int) \<le> 2" by simp
  note t = tail_blanking [OF h, of ?D "[]"]
  have m: "min (nat 2) (length (filter (\<lambda>v. v \<noteq> None) ?D)) = 2" by simp
  have m': "length (filter (\<lambda>v. v \<noteq> None) ?D)
              - min (nat 2) (length (filter (\<lambda>v. v \<noteq> None) ?D)) = 1" by simp
  have c: "card {i. i < length ?D \<and> ?D ! i \<noteq> None \<and> drop_days_by_indicator ?D 2 ! i = None} = 2"
    using t [THEN conjunct2, THEN conjunct1] unfolding m .
  have n: "length (filter (\<lambda>v. v \<noteq> None) (drop_days_by_indicator ?D 2)) = 1"
    using t [THEN conjunct2, THEN conjunct2, THEN conjunct2, THEN conjunct2, THEN conjunct1]
    unfolding m' .
  have e: "drop_days_by_indicator ?D 2 = [Some 4, None, None, None, None]"
    by (simp add: drop_days_by_indicator_def argwhere_notnan_def slice_from_def blank_at_def
        upt_rec)
  show ?thesis using h c n e by (intro conjI)
qed

section \<open>The caller's frame under model\_iteration\<close>

lemma blank_at_address:
  "foldl (\<lambda>t ind. assign_column_at a ind
            (drop_days_by_indicator (column ind (frames t a)) h) t) s inds
     = s\<lparr>frames := (frames s) (a := foldl (blank_step h) (frames s a) inds)\<rparr>"
    (is "foldl ?F s inds = _")
proof (induction inds arbitrary: s)
  case Nil
  then show ?case by simp
next
  case (Cons ind inds)
  have "foldl ?F s (ind # inds) = foldl ?F (?F s ind) inds" by simp
  also have "\<dots> = (?F s ind)\<lparr>frames := (frames (?F s ind))
                        (a := foldl (blank_step h) (frames (?F s ind) a) inds)\<rparr>"
    by (rule Cons.IH)
  also have "\<dots> = s\<lparr>frames := (frames s) (a := foldl (blank_step h) (frames s a) (ind # inds))\<rparr>"
    by (simp add: assign_column_at_def blank_step_def)
  finally show ?case .
qed

lemma model_iteration_eq:
  "model_iteration stages lid a h d s =
     (stages lid (drop_null_rows (blank_indicators h (frames s a))) h d,
      s\<lparr>frames := (frames s) (fresh s := blank_indicators h (frames s a),
                              Suc (fresh s) := drop_null_rows (blank_indicators h (frames s a))),
        fresh := Suc (Suc (fresh s))\<rparr>)"
  by (simp add: model_iteration_def alloc_def blank_at_address blank_indicators_def Let_def)

lemma model_iteration_frame:
  assumes "b < fresh s"
  shows "frames (snd (model_iteration stages lid a h d s)) b = frames s b"
    and "fresh s \<le> fresh (snd (model_iteration stages lid a h d s))"
  using assms by (simp_all add: model_iteration_eq)

lemma run_iterations_frame:
  assumes "b < fresh s"
  shows "frames (snd (run_iterations stages lid a plan s)) b = frames s b
         \<and> fresh s \<le> fresh (snd (run_iterations stages lid a plan s))"
  using assms
proof (induction plan arbitrary: s)
  case Nil
  then show ?case by simp
next
  case (Cons hd plan)
  obtain h d where hd: "hd = (h, d)" by (cases hd)
  let ?s1 = "snd (model_iteration stages lid a (num_val h) d s)"
  have b1: "b < fresh ?s1" and f1: "frames ?s1 b = frames s b" and l1: "fresh s \<le> fresh ?s1"
    using Cons.prems model_iteration_frame [of b s stages lid a "num_val h" d] by simp_all
  from Cons.IH [OF b1] show ?case
    using f1 l1 by (simp add: hd split_beta Let_def)
qed

lemma run_iterations_results:
  assumes "a < fresh s"
  shows "fst (run_iterations stages lid a plan s) =
           map (\<lambda>(h, d). stages lid (drop_null_rows (blank_indicators (num_val h) (frames s a)))
                  (num_val h) d) plan"
  using assms
proof (induction plan arbitrary: s)
  case Nil
  then show ?case by simp
next
  case (Cons hd plan)
  obtain h d where hd: "hd = (h, d)" by (cases hd)
  let ?s1 = "snd (model_iteration stages lid a (num_val h) d s)"
  have b1: "a < fresh ?s1" and f1: "frames ?s1 a = frames s a"
    using Cons.prems model_iteration_frame [of a s stages lid a "num_val h" d] by simp_all
  have r: "fst (model_iteration stages lid a (num_val h) d s) =
      stages lid (drop_null_rows (blank_indicators (num_val h) (frames s a))) (num_val h) d"
    by (simp add: model_iteration_eq)
  from Cons.IH [OF b1] show ?case
    using f1 r by (simp add: hd split_beta Let_def)
qed

text \<open>
  Claim C9. \<open>model_iteration\<close> hands to the models the blanked and filtered copy and
  leaves the frame at the caller's address as it was; so the results of the \<open>H + 1\<close>
  iterations of \<open>run_models\<close> are each computed from the blanking, at that iteration's
  depth, of the original frame, and after all of them every frame that existed before is
  unchanged.
\<close>

theorem caller_frame_untouched:
  assumes "model_data < fresh s"
  shows "fst (model_iteration stages lid model_data h d s)
           = stages lid (drop_null_rows (blank_indicators h (frames s model_data))) h d
    \<and> frames (snd (model_iteration stages lid model_data h d s)) model_data = frames s model_data
    \<and> fst (run_iterations stages lid model_data plan s)
        = map (\<lambda>(h, d). stages lid
                 (drop_null_rows (blank_indicators (num_val h) (frames s model_data)))
                 (num_val h) d) plan
    \<and> (\<forall>b < fresh s. frames (snd (run_iterations stages lid model_data plan s)) b = frames s b)"
proof (intro conjI allI impI)
  show "fst (model_iteration stages lid model_data h d s)
           = stages lid (drop_null_rows (blank_indicators h (frames s model_data))) h d"
    by (simp add: model_iteration_eq)
  show "frames (snd (model_iteration stages lid model_data h d s)) model_data = frames s model_data"
    using assms by (rule model_iteration_frame(1))
  show "fst (run_iterations stages lid model_data plan s)
        = map (\<lambda>(h, d). stages lid
                 (drop_null_rows (blank_indicators (num_val h) (frames s model_data)))
                 (num_val h) d) plan"
    using assms by (rule run_iterations_results)
  show "frames (snd (run_iterations stages lid model_data plan s)) b = frames s b"
    if "b < fresh s" for b
    using run_iterations_frame [OF that] by blast
qed

theorem caller_frame_untouched_witness:
  "(0::nat) < fresh three_days_store
   \<and> fst (run_iterations (\<lambda>lid fr h d. map Death_rate fr) 7 0
            [(PyInt 0, PyInt 1), (PyInt 1, PyInt 1), (PyInt 2, PyInt 1)] three_days_store)
       = [[Some 1, Some 2, Some 3], [Some 1, Some 2], [Some 1]]
   \<and> frames (snd (run_iterations (\<lambda>lid fr h d. map Death_rate fr) 7 0
            [(PyInt 0, PyInt 1), (PyInt 1, PyInt 1), (PyInt 2, PyInt 1)] three_days_store)) 0
       = three_days"
proof -
  have h: "(0::nat) < fresh three_days_store" by (simp add: three_days_store_def)
  note t = caller_frame_untouched [OF h, of "\<lambda>lid fr h d. map Death_rate fr" 7 0 "PyInt 1"
      "[(PyInt 0, PyInt 1), (PyInt 1, PyInt 1), (PyInt 2, PyInt 1)]"]
  have f: "frames three_days_store 0 = three_days" by (simp add: three_days_store_def)
  have e0: "map Death_rate (drop_null_rows (blank_indicators 0 three_days))
             = [Some 1, Some 2, Some 3]"
    by (simp add: three_days_def day_def drop_null_rows_def all_null_def indicators_def
        blank_indicators_0)
  have e1: "map Death_rate (drop_null_rows (blank_indicators 1 three_days)) = [Some 1, Some 2]"
    by (simp add: three_days_def day_def drop_null_rows_def all_null_def indicators_def
        blank_indicators_def blank_step_def column_def assign_column_def
        drop_days_by_indicator_def argwhere_notnan_def slice_from_def blank_at_def upt_rec)
  have e2: "map Death_rate (drop_null_rows (blank_indicators 2 three_days)) = [Some 1]"
    by (simp add: three_days_def day_def drop_null_rows_def all_null_def indicators_def
        blank_indicators_def blank_step_def column_def assign_column_def
        drop_days_by_indicator_def argwhere_notnan_def slice_from_def blank_at_def upt_rec)
  have r: "fst (run_iterations (\<lambda>lid fr h d. map Death_rate fr) 7 0
            [(PyInt 0, PyInt 1), (PyInt 1, PyInt 1), (PyInt 2, PyInt 1)] three_days_store)
       = [[Some 1, Some 2, Some 3], [Some 1, Some 2], [Some 1]]"
    using t [THEN conjunct2, THEN conjunct2, THEN conjunct1] by (simp add: f e0 e1 e2)
  have u: "frames (snd (run_iterations (\<lambda>lid fr h d. map Death_rate fr) 7 0
            [(PyInt 0, PyInt 1), (PyInt 1, PyInt 1), (PyInt 2, PyInt 1)] three_days_store)) 0
       = three_days"
    using t [THEN conjunct2, THEN conjunct2, THEN conjunct2] h f by simp
  show ?thesis using h r u by (intro conjI)
qed

section \<open>Rescaling\<close>

lemma population_not_draw: "''population'' \<notin> set (draw_cols_of cs)"
  by (simp add: draw_cols_of_def)

lemma times_population_ok:
  assumes "set draw_cols \<subseteq> set (rt_columns t)" "''population'' \<in> set (rt_columns t)"
  shows "times_population draw_cols t =
     Inr (t\<lparr>rt_rows := map (\<lambda>r. r\<lparr>rt_cells := (\<lambda>c. if c \<in> set draw_cols
                                then fmul (rt_cells r c) (rt_cells r ''population'')
                                else rt_cells r c)\<rparr>) (rt_rows t)\<rparr>)"
  using assms by (auto simp: times_population_def list_all_iff)

lemma rescaled_round_trip:
  assumes p: "p \<noteq> 0"
    and a: "fmul (Finite v) (Finite p) = Finite a"
    and b: "fdiv (Finite a) (Finite p) = Finite b"
    and na: "1 / 2 ^ 1022 \<le> \<bar>v * p\<bar>"
    and nb: "1 / 2 ^ 1022 \<le> \<bar>a / p\<bar>"
  shows "\<bar>b - v\<bar> \<le> 3 * \<bar>v\<bar> / 2 ^ 53"
proof -
  have ra: "round64 (v * p) = Finite a" using a by simp
  have rb: "round64 (a / p) = Finite b" using b p by simp
  have ea: "\<bar>a - v * p\<bar> \<le> \<bar>v * p\<bar> / 2 ^ 53" using na ra by (rule round64_error)
  have eb: "\<bar>b - a / p\<bar> \<le> \<bar>a / p\<bar> / 2 ^ 53" using nb rb by (rule round64_error)
  show ?thesis using p ea eb by (rule round_trip_bound)
qed

lemma tenth: "round64 (1 / 10) = Finite (3602879701896397 / 36028797018963968)"
  by code_simp

lemma three_tenths:
  "fmul (Finite (3602879701896397 / 36028797018963968)) (Finite 3) =
     Finite (1351079888211149 / 4503599627370496)"
  by code_simp

lemma tenth_again:
  "fdiv (Finite (1351079888211149 / 4503599627370496)) (Finite 3) =
     Finite (7205759403792795 / 72057594037927936)"
  by code_simp

text \<open>
  Claim C7, taken to the letter, does not hold of floats: the product is rounded, and so
  is the quotient. On the table of one row with the rate 0.1 and the population 3, the
  rescaled draw is the float \<open>0.30000000000000004\<close>, and dividing it by 3 gives
  \<open>0.10000000000000002\<close>, one unit in the last place above the rate.
\<close>

theorem rescaling_round_trip_inexact:
  "map (\<lambda>r. rt_cells r ''draw_0'') (rt_rows one_row_rates) =
     [Finite (3602879701896397 / 36028797018963968)]
   \<and> map_sum id (\<lambda>(nd, sd). map (\<lambda>r. rt_cells r ''draw_0'') (rt_rows sd))
         (rescale_draws one_row_rates one_row_rates) =
       Inr [Finite (1351079888211149 / 4503599627370496)]
   \<and> map_sum id (\<lambda>(nd, sd). map (\<lambda>r. fdiv (rt_cells r ''draw_0'') (Finite 3)) (rt_rows sd))
         (rescale_draws one_row_rates one_row_rates) =
       Inr [Finite (7205759403792795 / 72057594037927936)]"
  by (simp add: rescale_draws_def times_population_def del_column_def one_row_rates_def
      draw_cols_of_def Let_def tenth three_tenths tenth_again del: fmul.simps fdiv.simps)

text \<open>
  Claim C7. When both tables have a population column and the same draw columns, the
  rescaling succeeds; in both results every draw column of every row holds the float
  product of the rate draw of that row and the population of that row, all other cells
  and the keys are as before, and the population column is no longer among the columns.
  Dividing a rescaled draw by the same population, when that is not zero, gives the rate
  draw back within a relative error of \<open>3 / 2 ^ 53\<close>, provided the rate, the population,
  the product and the quotient are finite and neither the product nor the quotient is
  below the smallest normal float \<open>1 / 2 ^ 1022\<close> in magnitude.
\<close>

theorem rescaling:
  assumes "''population'' \<in> set (rt_columns noisy)" "''population'' \<in> set (rt_columns smooth)"
    and "set (draw_cols_of (rt_columns noisy)) = set (draw_cols_of (rt_columns smooth))"
  shows "\<exists>nd sd. rescale_draws noisy smooth = Inr (nd, sd)
      \<and> rt_columns nd = filter (\<lambda>c. c \<noteq> ''population'') (rt_columns noisy)
      \<and> rt_columns sd = filter (\<lambda>c. c \<noteq> ''population'') (rt_columns smooth)
      \<and> ''population'' \<notin> set (rt_columns nd) \<and> ''population'' \<notin> set (rt_columns sd)
      \<and> length (rt_rows nd) = length (rt_rows noisy)
      \<and> length (rt_rows sd) = length (rt_rows smooth)
      \<and> (\<forall>i < length (rt_rows noisy).
            rt_location_id (rt_rows nd ! i) = rt_location_id (rt_rows noisy ! i)
            \<and> rt_date (rt_rows nd ! i) = rt_date (rt_rows noisy ! i)
            \<and> (\<forall>c \<in> set (rt_columns nd). rt_cells (rt_rows nd ! i) c =
                 (if c \<in> set (draw_cols_of (rt_columns noisy))
                  then fmul (rt_cells (rt_rows noisy ! i) c) (rt_cells (rt_rows noisy ! i) ''population'')
                  else rt_cells (rt_rows noisy ! i) c)))
      \<and> (\<forall>i < length (rt_rows smooth).
            rt_location_id (rt_rows sd ! i) = rt_location_id (rt_rows smooth ! i)
            \<and> rt_date (rt_rows sd ! i) = rt_date (rt_rows smooth ! i)
            \<and> (\<forall>c \<in> set (rt_columns sd). rt_cells (rt_rows sd ! i) c =
                 (if c \<in> set (draw_cols_of (rt_columns smooth))
                  then fmul (rt_cells (rt_rows smooth ! i) c) (rt_cells (rt_rows smooth ! i) ''population'')
                  else rt_cells (rt_rows smooth ! i) c)))
      \<and> (\<forall>i < length (rt_rows noisy). \<forall>c \<in> set (draw_cols_of (rt_columns noisy)). \<forall>v p a b.
            rt_cells (rt_rows noisy ! i) c = Finite v
            \<and> rt_cells (rt_rows noisy ! i) ''population'' = Finite p \<and> p \<noteq> 0
            \<and> rt_cells (rt_rows nd ! i) c = Finite a
            \<and> fdiv (Finite a) (Finite p) = Finite b
            \<and> 1 / 2 ^ 1022 \<le> \<bar>v * p\<bar> \<and> 1 / 2 ^ 1022 \<le> \<bar>a / p\<bar>
            \<longrightarrow> \<bar>b - v\<bar> \<le> 3 * \<bar>v\<bar> / 2 ^ 53)
      \<and> (\<forall>i < length (rt_rows smooth). \<forall>c \<in> set (draw_cols_of (rt_columns smooth)). \<forall>v p a b.
            rt_cells (rt_rows smooth ! i) c = Finite v
            \<and> rt_cells (rt_rows smooth ! i) ''population'' = Finite p \<and> p \<noteq> 0
            \<and> rt_cells (rt_rows sd ! i) c = Finite a
            \<and> fdiv (Finite a) (Finite p) = Finite b
            \<and> 1 / 2 ^ 1022 \<le> \<bar>v * p\<bar> \<and> 1 / 2 ^ 1022 \<le> \<bar>a / p\<bar>
            \<longrightarrow> \<bar>b - v\<bar> \<le> 3 * \<bar>v\<bar> / 2 ^ 53)"
proof -
  let ?dc = "draw_cols_of (rt_columns smooth)"
  let ?f = "\<lambda>t. t\<lparr>rt_rows := map (\<lambda>r. r\<lparr>rt_cells := (\<lambda>c. if c \<in> set ?dc
                                then fmul (rt_cells r c) (rt_cells r ''population'')
                                else rt_cells r c)\<rparr>) (rt_rows t)\<rparr>"
  let ?g = "\<lambda>t. t\<lparr>rt_columns := filter (\<lambda>x. x \<noteq> ''population'') (rt_columns t)\<rparr>"
  have sub_s: "set ?dc \<subseteq> set (rt_columns smooth)" by (auto simp: draw_cols_of_def)
  have sub_n: "set ?dc \<subseteq> set (rt_columns noisy)"
    using assms(3) [symmetric] by (auto simp: draw_cols_of_def)
  have tn: "times_population ?dc noisy = Inr (?f noisy)"
    by (rule times_population_ok [OF sub_n assms(1)])
  have ts: "times_population ?dc smooth = Inr (?f smooth)"
    by (rule times_population_ok [OF sub_s assms(2)])
  have dn: "del_column ''population'' (?f noisy) = Inr (?g (?f noisy))"
    using assms(1) by (simp add: del_column_def)
  have ds: "del_column ''population'' (?f smooth) = Inr (?g (?f smooth))"
    using assms(2) by (simp add: del_column_def)
  have r: "rescale_draws noisy smooth = Inr (?g (?f noisy), ?g (?f smooth))"
    by (simp only: rescale_draws_def Let_def tn ts dn ds sum.case)
  have 1: "rt_columns (?g (?f noisy)) = filter (\<lambda>c. c \<noteq> ''population'') (rt_columns noisy)"
    by simp
  have 2: "rt_columns (?g (?f smooth)) = filter (\<lambda>c. c \<noteq> ''population'') (rt_columns smooth)"
    by simp
  have 3: "''population'' \<notin> set (rt_columns (?g (?f noisy)))" by simp
  have 4: "''population'' \<notin> set (rt_columns (?g (?f smooth)))" by simp
  have 5: "length (rt_rows (?g (?f noisy))) = length (rt_rows noisy)" by simp
  have 6: "length (rt_rows (?g (?f smooth))) = length (rt_rows smooth)" by simp
  have 7: "(\<forall>i < length (rt_rows noisy).
            rt_location_id (rt_rows (?g (?f noisy)) ! i) = rt_location_id (rt_rows noisy ! i)
            \<and> rt_date (rt_rows (?g (?f noisy)) ! i) = rt_date (rt_rows noisy ! i)
            \<and> (\<forall>c \<in> set (rt_columns (?g (?f noisy))). rt_cells (rt_rows (?g (?f noisy)) ! i) c =
                 (if c \<in> set (draw_cols_of (rt_columns noisy))
                  then fmul (rt_cells (rt_rows noisy ! i) c) (rt_cells (rt_rows noisy ! i) ''population'')
                  else rt_cells (rt_rows noisy ! i) c)))"
    by (simp add: assms(3))
  have 8: "(\<forall>i < length (rt_rows smooth).
            rt_location_id (rt_rows (?g (?f smooth)) ! i) = rt_location_id (rt_rows smooth ! i)
            \<and> rt_date (rt_rows (?g (?f smooth)) ! i) = rt_date (rt_rows smooth ! i)
            \<and> (\<forall>c \<in> set (rt_columns (?g (?f smooth))). rt_cells (rt_rows (?g (?f smooth)) ! i) c =
                 (if c \<in> set (draw_cols_of (rt_columns smooth))
                  then fmul (rt_cells (rt_rows smooth ! i) c) (rt_cells (rt_rows smooth ! i) ''population'')
                  else rt_cells (rt_rows smooth ! i) c)))"
    by simp
  have cell: "rt_cells (rt_rows (?g (?f t)) ! i) c =
                fmul (rt_cells (rt_rows t ! i) c) (rt_cells (rt_rows t ! i) ''population'')"
    if "i < length (rt_rows t)" "c \<in> set ?dc" for t i c
    using that by simp
  have trip: "\<bar>b - v\<bar> \<le> 3 * \<bar>v\<bar> / 2 ^ 53"
    if i: "i < length (rt_rows t)" and c: "c \<in> set ?dc"
      and h: "rt_cells (rt_rows t ! i) c = Finite v
            \<and> rt_cells (rt_rows t ! i) ''population'' = Finite p \<and> p \<noteq> 0
            \<and> rt_cells (rt_rows (?g (?f t)) ! i) c = Finite a
            \<and> fdiv (Finite a) (Finite p) = Finite b
            \<and> 1 / 2 ^ 1022 \<le> \<bar>v * p\<bar> \<and> 1 / 2 ^ 1022 \<le> \<bar>a / p\<bar>"
    for t i c v p a b
  proof -
    have "fmul (Finite v) (Finite p) = Finite a"
      using cell [OF i c] h by (simp only:)
    moreover have "p \<noteq> 0" "fdiv (Finite a) (Finite p) = Finite b"
      "1 / 2 ^ 1022 \<le> \<bar>v * p\<bar>" "1 / 2 ^ 1022 \<le> \<bar>a / p\<bar>"
      using h by blast+
    ultimately show ?thesis by (intro rescaled_round_trip [of p v a b])
  qed
  have 9: "(\<forall>i < length (rt_rows noisy). \<forall>c \<in> set (draw_cols_of (rt_columns noisy)). \<forall>v p a b.
            rt_cells (rt_rows noisy ! i) c = Finite v
            \<and> rt_cells (rt_rows noisy ! i) ''population'' = Finite p \<and> p \<noteq> 0
            \<and> rt_cells (rt_rows (?g (?f noisy)) ! i) c = Finite a
            \<and> fdiv (Finite a) (Finite p) = Finite b
            \<and> 1 / 2 ^ 1022 \<le> \<bar>v * p\<bar> \<and> 1 / 2 ^ 1022 \<le> \<bar>a / p\<bar>
            \<longrightarrow> \<bar>b - v\<bar> \<le> 3 * \<bar>v\<bar> / 2 ^ 53)"
    unfolding assms(3) using trip [of _ noisy] by blast
  have 10: "(\<forall>i < length (rt_rows smooth). \<forall>c \<in> set (draw_cols_of (rt_columns smooth)). \<forall>v p a b.
            rt_cells (rt_rows smooth ! i) c = Finite v
            \<and> rt_cells (rt_rows smooth ! i) ''population'' = Finite p \<and> p \<noteq> 0
            \<and> rt_cells (rt_rows (?g (?f smooth)) ! i) c = Finite a
            \<and> fdiv (Finite a) (Finite p) = Finite b
            \<and> 1 / 2 ^ 1022 \<le> \<bar>v * p\<bar> \<and> 1 / 2 ^ 1022 \<le> \<bar>a / p\<bar>
            \<longrightarrow> \<bar>b - v\<bar> \<le> 3 * \<bar>v\<bar> / 2 ^ 53)"
    using trip [of _ smooth] by blast
  show ?thesis
    apply (rule exI [of _ "?g (?f noisy)"])
    apply (rule exI [of _ "?g (?f smooth)"])
    using r 1 2 3 4 5 6 7 8 9 10 by (intro conjI)
qed

theorem rescaling_witness:
  "''population'' \<in> set (rt_columns one_row_rates)
   \<and> set (draw_cols_of (rt_columns one_row_rates)) = set (draw_cols_of (rt_columns one_row_rates))
   \<and> (\<exists>nd sd. rescale_draws one_row_rates one_row_rates = Inr (nd, sd)
         \<and> rt_columns sd = [''draw_0'']
         \<and> rt_cells (rt_rows nd ! 0) ''draw_0'' = Finite (1351079888211149 / 4503599627370496)
         \<and> rt_cells (rt_rows sd ! 0) ''draw_0'' = Finite (1351079888211149 / 4503599627370496))
   \<and> rt_cells (rt_rows one_row_rates ! 0) ''draw_0'' =
        Finite (3602879701896397 / 36028797018963968)
   \<and> rt_cells (rt_rows one_row_rates ! 0) ''population'' = Finite 3
   \<and> (3::rat) \<noteq> 0
   \<and> fdiv (Finite (1351079888211149 / 4503599627370496)) (Finite 3) =
        Finite (7205759403792795 / 72057594037927936)
   \<and> (1::rat) / 2 ^ 1022 \<le> \<bar>3602879701896397 / 36028797018963968 * 3\<bar>
   \<and> (1::rat) / 2 ^ 1022 \<le> \<bar>1351079888211149 / 4503599627370496 / 3\<bar>
   \<and> \<bar>7205759403792795 / 72057594037927936 - 3602879701896397 / 36028797018963968 :: rat\<bar>
        \<le> 3 * \<bar>3602879701896397 / 36028797018963968\<bar> / 2 ^ 53"
proof -
  let ?v = "3602879701896397 / 36028797018963968 :: rat"
  let ?a = "1351079888211149 / 4503599627370496 :: rat"
  let ?b = "7205759403792795 / 72057594037927936 :: rat"
  have h: "''population'' \<in> set (rt_columns one_row_rates)"
    by (simp add: one_row_rates_def)
  have c: "filter (\<lambda>c. c \<noteq> ''population'') (rt_columns one_row_rates) = [''draw_0'']"
    by (simp add: one_row_rates_def)
  have d: "''draw_0'' \<in> set (draw_cols_of (rt_columns one_row_rates))"
    by (simp add: one_row_rates_def draw_cols_of_def)
  have l: "0 < length (rt_rows one_row_rates)"
    by (simp add: one_row_rates_def)
  have v: "rt_cells (rt_rows one_row_rates ! 0) ''draw_0'' = Finite ?v"
    by (simp add: one_row_rates_def tenth)
  have p: "rt_cells (rt_rows one_row_rates ! 0) ''population'' = Finite 3"
    by (simp add: one_row_rates_def)
  have m: "fmul (rt_cells (rt_rows one_row_rates ! 0) ''draw_0'')
             (rt_cells (rt_rows one_row_rates ! 0) ''population'') = Finite ?a"
    unfolding v p by (rule three_tenths)
  have q: "fdiv (Finite ?a) (Finite 3) = Finite ?b"
    by (rule tenth_again)
  have na: "(1::rat) / 2 ^ 1022 \<le> \<bar>?v * 3\<bar>" by simp
  have nb: "(1::rat) / 2 ^ 1022 \<le> \<bar>?a / 3\<bar>" by simp
  from rescaling [OF h h refl] obtain nd sd where
    r: "rescale_draws one_row_rates one_row_rates = Inr (nd, sd)"
    and cn: "rt_columns nd = filter (\<lambda>c. c \<noteq> ''population'') (rt_columns one_row_rates)"
    and cs: "rt_columns sd = filter (\<lambda>c. c \<noteq> ''population'') (rt_columns one_row_rates)"
    and n: "(\<forall>i < length (rt_rows one_row_rates).
            rt_location_id (rt_rows nd ! i) = rt_location_id (rt_rows one_row_rates ! i)
            \<and> rt_date (rt_rows nd ! i) = rt_date (rt_rows one_row_rates ! i)
            \<and> (\<forall>c \<in> set (rt_columns nd). rt_cells (rt_rows nd ! i) c =
                 (if c \<in> set (draw_cols_of (rt_columns one_row_rates))
                  then fmul (rt_cells (rt_rows one_row_rates ! i) c) (rt_cells (rt_rows one_row_rates ! i) ''population'')
                  else rt_cells (rt_rows one_row_rates ! i) c)))"
    and s: "(\<forall>i < length (rt_rows one_row_rates).
            rt_location_id (rt_rows sd ! i) = rt_location_id (rt_rows one_row_rates ! i)
            \<and> rt_date (rt_rows sd ! i) = rt_date (rt_rows one_row_rates ! i)
            \<and> (\<forall>c \<in> set (rt_columns sd). rt_cells (rt_rows sd ! i) c =
                 (if c \<in> set (draw_cols_of (rt_columns one_row_rates))
                  then fmul (rt_cells (rt_rows one_row_rates ! i) c) (rt_cells (rt_rows one_row_rates ! i) ''population'')
                  else rt_cells (rt_rows one_row_rates ! i) c)))"
    and t: "(\<forall>i < length (rt_rows one_row_rates). \<forall>c \<in> set (draw_cols_of (rt_columns one_row_rates)). \<forall>v p a b.
            rt_cells (rt_rows one_row_rates ! i) c = Finite v
            \<and> rt_cells (rt_rows one_row_rates ! i) ''population'' = Finite p \<and> p \<noteq> 0
            \<and> rt_cells (rt_rows sd ! i) c = Finite a
            \<and> fdiv (Finite a) (Finite p) = Finite b
            \<and> 1 / 2 ^ 1022 \<le> \<bar>v * p\<bar> \<and> 1 / 2 ^ 1022 \<le> \<bar>a / p\<bar>
            \<longrightarrow> \<bar>b - v\<bar> \<le> 3 * \<bar>v\<bar> / 2 ^ 53)"
    by (elim exE conjE) (rule that; assumption)
  have vn: "rt_cells (rt_rows nd ! 0) ''draw_0'' = Finite ?a"
    using n l d m by (simp add: cn c)
  have vs: "rt_cells (rt_rows sd ! 0) ''draw_0'' = Finite ?a"
    using s l d m by (simp add: cs c)
  have z: "(3::rat) \<noteq> 0" by simp
  have e: "\<bar>?b - ?v\<bar> \<le> 3 * \<bar>?v\<bar> / 2 ^ 53"
    apply (rule t [rule_format, OF l d, of ?v 3 ?a ?b])
    using v p z vs q na nb by (intro conjI)
  have ex: "\<exists>nd sd. rescale_draws one_row_rates one_row_rates = Inr (nd, sd)
         \<and> rt_columns sd = [''draw_0'']
         \<and> rt_cells (rt_rows nd ! 0) ''draw_0'' = Finite ?a
         \<and> rt_cells (rt_rows sd ! 0) ''draw_0'' = Finite ?a"
    using r cs c vn vs by auto
  show ?thesis using h ex v p z q na nb e by (intro conjI refl)
qed

section \<open>The continuity check\<close>

lemma group_dates_finite: "finite (group_dates rs l)"
  by (simp add: group_dates_def)

lemma group_dates_iff: "d \<in> group_dates rs l \<longleftrightarrow> (\<exists>r \<in> set rs. location_id r = l \<and> date r = d)"
  by (auto simp: group_dates_def)

lemma group_dates_nonempty: "group_dates rs l \<noteq> {} \<longleftrightarrow> l \<in> location_id ` set rs"
  by (auto simp: group_dates_def filter_empty_conv)

lemma map_of_groupby_min:
  "map_of (groupby_date_min rs) l =
     (if l \<in> location_id ` set rs then Some (Min (group_dates rs l)) else None)"
  by (simp add: groupby_date_min_def map_of_map_restrict restrict_map_def)

lemma map_of_groupby_max:
  "map_of (groupby_date_max rs) l =
     (if l \<in> location_id ` set rs then Some (Max (group_dates rs l)) else None)"
  by (simp add: groupby_date_max_def map_of_map_restrict restrict_map_def)

lemma fst_groupby_min: "fst ` set (groupby_date_min rs) = location_id ` set rs"
  by (auto simp: groupby_date_min_def image_iff)

lemma fst_groupby_max: "fst ` set (groupby_date_max rs) = location_id ` set rs"
  by (auto simp: groupby_date_max_def image_iff)

lemma notnull_entries_iff:
  "(k, g) \<in> set (notnull_entries s) \<longleftrightarrow> (k, Some g) \<in> set s"
  by (induction s) (auto simp: notnull_entries_def split: option.splits)

lemma series_sub_iff:
  "(k, v) \<in> set (series_sub a b) \<longleftrightarrow>
     (k \<in> fst ` set a \<union> fst ` set b) \<and>
     v = (case (map_of a k, map_of b k) of (Some x, Some y) \<Rightarrow> Some (x - y) | _ \<Rightarrow> None)"
  by (auto simp: series_sub_def)

lemma date_diffs_iff:
  "(l, g) \<in> set (date_diffs N V) \<longleftrightarrow>
     l \<in> location_id ` set N \<and> l \<in> location_id ` set V
     \<and> g = Min (group_dates N l) - Max (group_dates V l)"
  unfolding date_diffs_def notnull_entries_iff series_sub_iff
    map_of_groupby_min map_of_groupby_max fst_groupby_min fst_groupby_max
  by (auto split: if_splits)

lemma gap_negative_iff:
  assumes "l \<in> location_id ` set N" "l \<in> location_id ` set V"
  shows "Min (group_dates N l) - Max (group_dates V l) < 0 \<longleftrightarrow>
           (\<exists>n \<in> set N. \<exists>v \<in> set V. location_id n = l \<and> location_id v = l \<and> date n < date v)"
proof -
  have nN: "group_dates N l \<noteq> {}" and nV: "group_dates V l \<noteq> {}"
    using assms by (simp_all add: group_dates_nonempty)
  have "Min (group_dates N l) - Max (group_dates V l) < 0
          \<longleftrightarrow> Min (group_dates N l) < Max (group_dates V l)" by simp
  also have "\<dots> \<longleftrightarrow> (\<exists>a \<in> group_dates N l. a < Max (group_dates V l))"
    by (rule Min_less_iff [OF group_dates_finite nN])
  also have "\<dots> \<longleftrightarrow> (\<exists>a \<in> group_dates N l. \<exists>b \<in> group_dates V l. a < b)"
    by (simp only: Max_gr_iff [OF group_dates_finite nV])
  also have "\<dots> \<longleftrightarrow> (\<exists>n \<in> set N. \<exists>v \<in> set V. location_id n = l \<and> location_id v = l \<and> date n < date v)"
    unfolding group_dates_def by auto
  finally show ?thesis .
qed

lemma some_gap_negative_iff:
  "list_ex (\<lambda>(l, g). g < 0) (date_diffs N V) \<longleftrightarrow>
     (\<exists>n \<in> set N. \<exists>v \<in> set V. location_id n = location_id v \<and> date n < date v)"
    (is "?L \<longleftrightarrow> ?R")
proof
  assume ?L
  then obtain l g where lg: "(l, g) \<in> set (date_diffs N V)" "g < 0"
    by (auto simp: list_ex_iff)
  then have m: "l \<in> location_id ` set N" "l \<in> location_id ` set V"
    and g: "g = Min (group_dates N l) - Max (group_dates V l)"
    by (simp_all add: date_diffs_iff)
  from lg(2) show ?R
    unfolding g gap_negative_iff [OF m] by metis
next
  assume ?R
  then obtain n v where nv: "n \<in> set N" "v \<in> set V" "location_id n = location_id v"
    "date n < date v" by blast
  let ?l = "location_id n"
  have m: "?l \<in> location_id ` set N" "?l \<in> location_id ` set V"
    using nv(1) nv(2) nv(3) by (blast, metis imageI)
  have "Min (group_dates N ?l) - Max (group_dates V ?l) < 0"
    unfolding gap_negative_iff [OF m] using nv by metis
  moreover have "(?l, Min (group_dates N ?l) - Max (group_dates V ?l)) \<in> set (date_diffs N V)"
    using m by (simp add: date_diffs_iff)
  ultimately show ?L unfolding list_ex_iff by blast
qed

lemma guard_kept_rows:
  "rows (kept (continuity_guard t)) = filter (\<lambda>r. \<not> nan_row (columns t) r) (rows t)"
proof (cases "filter (nan_row (columns t)) (rows t) = []")
  case True
  then have "\<forall>r \<in> set (rows t). \<not> nan_row (columns t) r"
    by (simp add: filter_empty_conv)
  then have "filter (\<lambda>r. \<not> nan_row (columns t) r) (rows t) = rows t"
    by (simp add: filter_id_conv)
  then show ?thesis using True by (simp add: continuity_guard_def Let_def)
next
  case False
  then show ?thesis by (simp add: continuity_guard_def Let_def)
qed

lemma guard_raised_iff:
  "raised (continuity_guard t) = Some ValueError \<longleftrightarrow>
     (\<exists>n \<in> set (rows t). \<exists>v \<in> set (rows t).
        nan_row (columns t) n \<and> \<not> nan_row (columns t) v
        \<and> location_id n = location_id v \<and> date n < date v)"
proof (cases "filter (nan_row (columns t)) (rows t) = []")
  case True
  then have "\<forall>r \<in> set (rows t). \<not> nan_row (columns t) r"
    by (simp add: filter_empty_conv)
  then show ?thesis using True by (auto simp: continuity_guard_def Let_def)
next
  case False
  then have "raised (continuity_guard t) = Some ValueError \<longleftrightarrow>
    list_ex (\<lambda>(l, g). g < 0) (date_diffs (filter (nan_row (columns t)) (rows t))
       (filter (\<lambda>r. \<not> nan_row (columns t) r) (rows t)))"
    by (simp add: continuity_guard_def Let_def)
  then show ?thesis unfolding some_gap_negative_iff by auto
qed

lemma guard_raised_cases:
  "raised (continuity_guard t) = None \<or> raised (continuity_guard t) = Some ValueError"
  by (simp add: continuity_guard_def Let_def)

lemma guard_report_iff:
  "problem_location_report (continuity_guard t) \<noteq> None \<longleftrightarrow>
     raised (continuity_guard t) = Some ValueError"
  by (simp add: continuity_guard_def Let_def)

lemma fst_date_diffs:
  "fst ` set (date_diffs N V) = location_id ` set N \<inter> location_id ` set V"
proof (rule set_eqI)
  fix l
  show "l \<in> fst ` set (date_diffs N V) \<longleftrightarrow> l \<in> location_id ` set N \<inter> location_id ` set V"
  proof
    assume "l \<in> fst ` set (date_diffs N V)"
    then obtain g where "(l, g) \<in> set (date_diffs N V)" by force
    then show "l \<in> location_id ` set N \<inter> location_id ` set V"
      by (simp add: date_diffs_iff)
  next
    assume "l \<in> location_id ` set N \<inter> location_id ` set V"
    then have "(l, Min (group_dates N l) - Max (group_dates V l)) \<in> set (date_diffs N V)"
      by (simp add: date_diffs_iff)
    then show "l \<in> fst ` set (date_diffs N V)" by (metis fst_conv imageI)
  qed
qed

lemma guard_nan_locations:
  "set (nan_locations (continuity_guard t)) =
     location_id ` set (filter (nan_row (columns t)) (rows t))
     \<inter> location_id ` set (filter (\<lambda>r. \<not> nan_row (columns t) r) (rows t))"
proof (cases "filter (nan_row (columns t)) (rows t) = []")
  case True
  then show ?thesis by (simp add: continuity_guard_def Let_def)
next
  case False
  then show ?thesis by (simp add: continuity_guard_def Let_def fst_date_diffs)
qed

text \<open>
  Claim C4. With a row called NaN when some column of it is NaN: the table that goes on
  is the table without its NaN rows; the run fails exactly when some location has a NaN
  row dated before one of its rows without NaN, and goes on exactly when no location has
  one. A location with a row without NaN whose NaN rows are all dated after every such
  row has no negative gap, and what is dropped of it are its NaN rows only.
\<close>

theorem continuity_check:
  "rows (kept (continuity_guard t)) = filter (\<lambda>r. \<not> nan_row (columns t) r) (rows t)
   \<and> (raised (continuity_guard t) = Some ValueError \<longleftrightarrow>
        (\<exists>n \<in> set (rows t). \<exists>v \<in> set (rows t).
           nan_row (columns t) n \<and> \<not> nan_row (columns t) v
           \<and> location_id n = location_id v \<and> date n < date v))
   \<and> (raised (continuity_guard t) = None \<longleftrightarrow>
        (\<forall>n \<in> set (rows t). \<forall>v \<in> set (rows t).
           nan_row (columns t) n \<and> \<not> nan_row (columns t) v
           \<and> location_id n = location_id v \<longrightarrow> date v \<le> date n))
   \<and> ((\<exists>v \<in> set (rows t). location_id v = l \<and> \<not> nan_row (columns t) v)
        \<and> (\<forall>n \<in> set (rows t). \<forall>v \<in> set (rows t).
              location_id n = l \<and> location_id v = l
              \<and> nan_row (columns t) n \<and> \<not> nan_row (columns t) v \<longrightarrow> date v < date n)
       \<longrightarrow> (\<forall>g. (l, g) \<in> set (date_diffs (filter (nan_row (columns t)) (rows t))
                                  (filter (\<lambda>r. \<not> nan_row (columns t) r) (rows t)))
                 \<longrightarrow> 0 < g)
         \<and> filter (\<lambda>r. location_id r = l) (rows (kept (continuity_guard t)))
             = filter (\<lambda>r. location_id r = l \<and> \<not> nan_row (columns t) r) (rows t))"
proof (intro conjI impI allI)
  let ?N = "filter (nan_row (columns t)) (rows t)"
  let ?V = "filter (\<lambda>r. \<not> nan_row (columns t) r) (rows t)"
  show k: "rows (kept (continuity_guard t)) = ?V"
    by (rule guard_kept_rows)
  show r: "raised (continuity_guard t) = Some ValueError \<longleftrightarrow>
        (\<exists>n \<in> set (rows t). \<exists>v \<in> set (rows t).
           nan_row (columns t) n \<and> \<not> nan_row (columns t) v
           \<and> location_id n = location_id v \<and> date n < date v)"
    by (rule guard_raised_iff)
  have "raised (continuity_guard t) = None \<longleftrightarrow> raised (continuity_guard t) \<noteq> Some ValueError"
    using guard_raised_cases [of t] by auto
  then show "raised (continuity_guard t) = None \<longleftrightarrow>
        (\<forall>n \<in> set (rows t). \<forall>v \<in> set (rows t).
           nan_row (columns t) n \<and> \<not> nan_row (columns t) v
           \<and> location_id n = location_id v \<longrightarrow> date v \<le> date n)"
    unfolding r by (auto simp: not_less)
  show "filter (\<lambda>r. location_id r = l) (rows (kept (continuity_guard t)))
             = filter (\<lambda>r. location_id r = l \<and> \<not> nan_row (columns t) r) (rows t)"
    unfolding k by (simp add: conj_commute)
  fix g
  assume h: "(\<exists>v \<in> set (rows t). location_id v = l \<and> \<not> nan_row (columns t) v)
        \<and> (\<forall>n \<in> set (rows t). \<forall>v \<in> set (rows t).
              location_id n = l \<and> location_id v = l
              \<and> nan_row (columns t) n \<and> \<not> nan_row (columns t) v \<longrightarrow> date v < date n)"
    and g: "(l, g) \<in> set (date_diffs ?N ?V)"
  from g have m: "l \<in> location_id ` set ?N" "l \<in> location_id ` set ?V"
    and e: "g = Min (group_dates ?N l) - Max (group_dates ?V l)"
    by (simp_all add: date_diffs_iff)
  have fN: "finite (group_dates ?N l)" and fV: "finite (group_dates ?V l)"
    by (rule group_dates_finite)+
  have nN: "group_dates ?N l \<noteq> {}" and nV: "group_dates ?V l \<noteq> {}"
    using m by (simp_all add: group_dates_nonempty)
  have "\<forall>a \<in> group_dates ?N l. \<forall>b \<in> group_dates ?V l. b < a"
    using h by (auto simp: group_dates_iff)
  then have "Max (group_dates ?V l) < Min (group_dates ?N l)"
    using fN fV nN nV by (simp add: Max_less_iff Min_gr_iff)
  then show "0 < g" unfolding e by simp
qed

theorem continuity_check_witness:
  "raised (continuity_guard interior_gap_table) = Some ValueError
   \<and> raised (continuity_guard trailing_gap_table) = None
   \<and> map (\<lambda>r. (location_id r, date r)) (rows (kept (continuity_guard trailing_gap_table)))
       = [(7, 1), (7, 2)]"
proof -
  note i = continuity_check [of interior_gap_table 7]
  note t = continuity_check [of trailing_gap_table 7]
  have a: "raised (continuity_guard interior_gap_table) = Some ValueError"
    unfolding i [THEN conjunct2, THEN conjunct1]
    by (simp add: interior_gap_table_def draw_at_def nan_row_def)
  have b: "raised (continuity_guard trailing_gap_table) = None"
    unfolding t [THEN conjunct2, THEN conjunct2, THEN conjunct1]
    by (simp add: trailing_gap_table_def draw_at_def nan_row_def)
  have c: "map (\<lambda>r. (location_id r, date r)) (rows (kept (continuity_guard trailing_gap_table)))
       = [(7, 1), (7, 2)]"
    unfolding t [THEN conjunct1]
    by (simp add: trailing_gap_table_def draw_at_def nan_row_def)
  show ?thesis using a b c by (intro conjI)
qed

text \<open>
  Claim C10. A location that has rows, all of them NaN, gets no gap at all: it is not
  in the series the check looks at, not in the recorded \<open>nan_locations\<close>, none of
  its rows goes on downstream (they are all in the table of NaN rows), and whether the
  run fails is the same as for the table without that location.
\<close>

theorem all_nan_location_skipped:
  assumes "\<exists>r \<in> set (rows t). location_id r = l"
    and "\<forall>r \<in> set (rows t). location_id r = l \<longrightarrow> nan_row (columns t) r"
  shows "l \<notin> fst ` set (date_diffs (filter (nan_row (columns t)) (rows t))
                          (filter (\<lambda>r. \<not> nan_row (columns t) r) (rows t)))
    \<and> l \<notin> set (nan_locations (continuity_guard t))
    \<and> (\<forall>r \<in> set (rows (kept (continuity_guard t))). location_id r \<noteq> l)
    \<and> (\<forall>r \<in> set (rows t). location_id r = l \<longrightarrow> r \<in> set (rows (nans (continuity_guard t))))
    \<and> raised (continuity_guard t)
        = raised (continuity_guard (t\<lparr>rows := filter (\<lambda>r. location_id r \<noteq> l) (rows t)\<rparr>))"
proof (intro conjI)
  let ?N = "filter (nan_row (columns t)) (rows t)"
  let ?V = "filter (\<lambda>r. \<not> nan_row (columns t) r) (rows t)"
  let ?t' = "t\<lparr>rows := filter (\<lambda>r. location_id r \<noteq> l) (rows t)\<rparr>"
  have nV: "l \<notin> location_id ` set ?V" using assms(2) by auto
  show "l \<notin> fst ` set (date_diffs ?N ?V)"
    unfolding fst_date_diffs using nV by simp
  show "l \<notin> set (nan_locations (continuity_guard t))"
    unfolding guard_nan_locations using nV by simp
  show "\<forall>r \<in> set (rows (kept (continuity_guard t))). location_id r \<noteq> l"
    unfolding guard_kept_rows using assms(2) by auto
  have ne: "?N \<noteq> []" using assms by (auto simp: filter_empty_conv)
  then have "rows (nans (continuity_guard t)) = ?N"
    by (simp add: continuity_guard_def Let_def)
  then show "\<forall>r \<in> set (rows t). location_id r = l \<longrightarrow> r \<in> set (rows (nans (continuity_guard t)))"
    using assms(2) by simp
  have v: "location_id v \<noteq> l" if "v \<in> set (rows t)" "\<not> nan_row (columns t) v" for v
    using assms(2) that by blast
  have "raised (continuity_guard t) = Some ValueError
          \<longleftrightarrow> raised (continuity_guard ?t') = Some ValueError"
    unfolding guard_raised_iff
  proof
    assume "\<exists>n \<in> set (rows t). \<exists>v \<in> set (rows t).
        nan_row (columns t) n \<and> \<not> nan_row (columns t) v
        \<and> location_id n = location_id v \<and> date n < date v"
    then obtain n w where nw: "n \<in> set (rows t)" "w \<in> set (rows t)"
      "nan_row (columns t) n" "\<not> nan_row (columns t) w"
      "location_id n = location_id w" "date n < date w" by blast
    have "location_id w \<noteq> l" using nw(2,4) by (rule v)
    then have "n \<in> set (rows ?t')" "w \<in> set (rows ?t')" using nw by simp_all
    then show "\<exists>n \<in> set (rows ?t'). \<exists>v \<in> set (rows ?t').
        nan_row (columns ?t') n \<and> \<not> nan_row (columns ?t') v
        \<and> location_id n = location_id v \<and> date n < date v"
      using nw(3,4,5,6) by auto
  next
    assume "\<exists>n \<in> set (rows ?t'). \<exists>v \<in> set (rows ?t').
        nan_row (columns ?t') n \<and> \<not> nan_row (columns ?t') v
        \<and> location_id n = location_id v \<and> date n < date v"
    then show "\<exists>n \<in> set (rows t). \<exists>v \<in> set (rows t).
        nan_row (columns t) n \<and> \<not> nan_row (columns t) v
        \<and> location_id n = location_id v \<and> date n < date v"
      by auto
  qed
  then show "raised (continuity_guard t) = raised (continuity_guard ?t')"
    using guard_raised_cases [of t] guard_raised_cases [of ?t'] by auto
qed

theorem all_nan_location_skipped_witness:
  "(\<exists>r \<in> set (rows trailing_gap_table). location_id r = 9)
   \<and> nan_locations (continuity_guard trailing_gap_table) = [7]
   \<and> 9 \<notin> set (nan_locations (continuity_guard trailing_gap_table))
   \<and> 9 \<notin> location_id ` set (rows (kept (continuity_guard trailing_gap_table)))
   \<and> raised (continuity_guard trailing_gap_table) = None"
proof -
  have h1: "\<exists>r \<in> set (rows trailing_gap_table). location_id r = 9"
    by (simp add: trailing_gap_table_def draw_at_def)
  have h2: "\<forall>r \<in> set (rows trailing_gap_table). location_id r = 9
              \<longrightarrow> nan_row (columns trailing_gap_table) r"
    by (simp add: trailing_gap_table_def draw_at_def nan_row_def)
  note t = all_nan_location_skipped [OF h1 h2]
  have a: "nan_locations (continuity_guard trailing_gap_table) = [7]"
    by code_simp
  have b: "9 \<notin> set (nan_locations (continuity_guard trailing_gap_table))"
    using t by blast
  have c: "9 \<notin> location_id ` set (rows (kept (continuity_guard trailing_gap_table)))"
    using t [THEN conjunct2, THEN conjunct2, THEN conjunct1] by auto
  have d: "raised (continuity_guard trailing_gap_table) = None"
    unfolding t [THEN conjunct2, THEN conjunct2, THEN conjunct2, THEN conjunct2]
    by code_simp
  show ?thesis using h1 a b c d by (intro conjI)
qed

text \<open>
  Whenever the report is written, the run raises, and every line of the report is one
  gap: the locations that the gaps belong to are not in the file.
\<close>

lemma guard_report_lines:
  assumes "problem_location_report (continuity_guard t) = Some ls"
  shows "raised (continuity_guard t) = Some ValueError"
    and "ls = map (\<lambda>(l, g). [g])
                (date_diffs (filter (nan_row (columns t)) (rows t))
                            (filter (\<lambda>r. \<not> nan_row (columns t) r) (rows t)))"
  using assms
  by (auto simp: continuity_guard_def Let_def series_to_csv_def split: if_splits)

text \<open>
  Claim C5, on a table where location 7 has a NaN on day 1 and a value on day 2. The
  check finds the gap \<open>-1\<close> for location 7, writes the report and raises. The report
  is written with \<^verbatim>\<open>index=False\<close>, and the location ids are the index of the series:
  the file holds the line \<open>-1\<close> and no location id.
\<close>

theorem report_written_without_location_ids:
  "raised (continuity_guard interior_gap_table) = Some ValueError
   \<and> date_diffs (filter (nan_row (columns interior_gap_table)) (rows interior_gap_table))
        (filter (\<lambda>r. \<not> nan_row (columns interior_gap_table) r) (rows interior_gap_table))
       = [(7, - 1)]
   \<and> problem_location_report (continuity_guard interior_gap_table) = Some [[- 1]]"
  by code_simp

section \<open>First differences\<close>

lemma nan_sub_zero: "nan_sub v (Some 0) = v"
  by (cases v) simp_all

lemma np_diff_rows:
  "np_diff (map g cs) (map (\<lambda>r. map (cells r) cs) x) =
     map (\<lambda>j. map (\<lambda>c. nan_sub (cells (x ! j) c) (if j = 0 then g c else cells (x ! (j - 1)) c)) cs)
       [0 ..< length x]"
proof (induction x arbitrary: g)
  case Nil
  then show ?case by simp
next
  case (Cons r x)
  have "np_diff (map g cs) (map (\<lambda>r. map (cells r) cs) (r # x)) =
          map (\<lambda>c. nan_sub (cells r c) (g c)) cs
          # np_diff (map (cells r) cs) (map (\<lambda>r. map (cells r) cs) x)"
    by (simp add: map2_map_map)
  also have "np_diff (map (cells r) cs) (map (\<lambda>r. map (cells r) cs) x) =
      map (\<lambda>j. map (\<lambda>c. nan_sub (cells (x ! j) c)
                       (if j = 0 then cells r c else cells (x ! (j - 1)) c)) cs) [0 ..< length x]"
    by (rule Cons.IH)
  also have "\<dots> = map (\<lambda>j. map (\<lambda>c. nan_sub (cells ((r # x) ! j) c)
                       (if j = 0 then g c else cells ((r # x) ! (j - 1)) c)) cs)
                   (map Suc [0 ..< length x])"
    by (simp add: nth_Cons')
  finally show ?case
    by (simp add: upt_conv_Cons map_Suc_upt del: upt_Suc)
qed

lemma row_of_map: "c \<in> set cs \<Longrightarrow> row_of cs (map f cs) c = f c"
  by (simp add: row_of_def map_of_zip_map)

lemma diff_group_eq:
  "diff_group cs x =
     map (\<lambda>j. \<lparr>location_id = location_id (x ! j), date = date (x ! j),
               cells = row_of cs (map (\<lambda>c. nan_sub (cells (x ! j) c)
                          (if j = 0 then Some 0 else cells (x ! (j - 1)) c)) cs)\<rparr>)
       [0 ..< length x]"
proof -
  have z: "replicate (length cs) (Some 0) = map (\<lambda>c. Some (0::real)) cs"
    by (simp add: map_replicate_const)
  show ?thesis
    unfolding diff_group_def np_diff_prepend0_def z np_diff_rows
    by (rule nth_equalityI) simp_all
qed

lemma diff_group_props:
  shows "length (diff_group cs x) = length x"
    and "j < length x \<Longrightarrow> location_id (diff_group cs x ! j) = location_id (x ! j)"
    and "j < length x \<Longrightarrow> date (diff_group cs x ! j) = date (x ! j)"
    and "j < length x \<Longrightarrow> c \<in> set cs \<Longrightarrow>
           cells (diff_group cs x ! j) c =
             nan_sub (cells (x ! j) c) (if j = 0 then Some 0 else cells (x ! (j - 1)) c)"
  by (simp_all add: diff_group_eq row_of_map)

lemma filter_concat_groups:
  assumes "distinct ks" "\<And>k r. r \<in> set (G k) \<Longrightarrow> location_id r = k"
  shows "filter (\<lambda>r. location_id r = l) (concat (map G ks)) = (if l \<in> set ks then G l else [])"
  using assms(1)
proof (induction ks)
  case Nil
  then show ?case by simp
next
  case (Cons k ks)
  have a: "filter (\<lambda>r. location_id r = l) (G k) = (if k = l then G k else [])"
    using assms(2) [of _ k] by (auto simp: filter_empty_conv filter_id_conv)
  show ?case using Cons by (auto simp: a)
qed

lemma sorted_dates_of_location:
  "sorted (map date (filter (\<lambda>r. location_id r = l) (sort_key (\<lambda>r. (location_id r, date r)) rs)))"
proof -
  let ?k = "\<lambda>r. (location_id r, date r)"
  let ?x = "filter (\<lambda>r. location_id r = l) (sort_key ?k rs)"
  have "sorted (map ?k ?x)" by (rule sorted_filter) simp
  then have "sorted_wrt (\<lambda>a b. ?k a \<le> ?k b) ?x" by (simp add: sorted_map)
  then have "sorted_wrt (\<lambda>a b. date a \<le> date b) ?x"
    by (rule sorted_wrt_mono_rel [rotated]) auto
  then show ?thesis by (simp add: sorted_map)
qed

lemma diff_group_location:
  assumes "r \<in> set (diff_group cs (filter (\<lambda>r. location_id r = k) s))"
  shows "location_id r = k"
proof -
  let ?x = "filter (\<lambda>r. location_id r = k) s"
  from assms obtain j where j: "j < length (diff_group cs ?x)" "r = diff_group cs ?x ! j"
    by (auto simp: in_set_conv_nth)
  then have j': "j < length ?x"
    by (simp only: diff_group_props(1))
  then have "?x ! j \<in> set ?x"
    by (rule nth_mem)
  then have "location_id (?x ! j) = k" by simp
  then show ?thesis unfolding j(2) by (simp only: diff_group_props(2) [OF j'])
qed

lemma daily_rows_of_location:
  fixes s :: "draw_row list"
  defines "ks \<equiv> sort (remdups (map location_id s))"
  shows "filter (\<lambda>r. location_id r = l)
           (concat (map (\<lambda>l. diff_group cs (filter (\<lambda>r. location_id r = l) s)) ks))
         = diff_group cs (filter (\<lambda>r. location_id r = l) s)"
proof -
  let ?G = "\<lambda>l. diff_group cs (filter (\<lambda>r. location_id r = l) s)"
  have d: "distinct ks" by (simp add: ks_def)
  have "filter (\<lambda>r. location_id r = l) (concat (map ?G ks)) = (if l \<in> set ks then ?G l else [])"
    using d by (rule filter_concat_groups) (rule diff_group_location)
  moreover have "?G l = []" if "l \<notin> set ks"
  proof -
    have "l \<notin> location_id ` set s" using that by (simp add: ks_def)
    then have "filter (\<lambda>r. location_id r = l) s = []"
      by (auto simp: filter_empty_conv)
    then show ?thesis by (simp add: diff_group_eq)
  qed
  ultimately show ?thesis by (cases "l \<in> set ks") simp_all
qed

lemma group_of_sorted:
  fixes rs :: "draw_row list"
  shows "set (filter (\<lambda>r. location_id r = l) (sort_key (\<lambda>r. (location_id r, date r)) rs))
           = {r \<in> set rs. location_id r = l}"
    and "length (filter (\<lambda>r. location_id r = l) (sort_key (\<lambda>r. (location_id r, date r)) rs))
           = length (filter (\<lambda>r. location_id r = l) rs)"
proof -
  show "set (filter (\<lambda>r. location_id r = l) (sort_key (\<lambda>r. (location_id r, date r)) rs))
           = {r \<in> set rs. location_id r = l}"
    by (simp only: set_filter set_sort)
  show "length (filter (\<lambda>r. location_id r = l) (sort_key (\<lambda>r. (location_id r, date r)) rs))
           = length (filter (\<lambda>r. location_id r = l) rs)"
    by (simp only: filter_sort length_sort)
qed

lemma diff_group_cells:
  assumes "j < length x" "c \<in> set cs"
  shows "cells (diff_group cs x ! j) c =
           nan_sub (cells (x ! j) c) (if j = 0 then Some 0 else cells (x ! (j - 1)) c)
         \<and> (j = 0 \<longrightarrow> cells (diff_group cs x ! j) c = cells (x ! j) c)"
proof (cases "j = 0")
  case True
  then show ?thesis using diff_group_props(4) [OF assms] by (simp add: nan_sub_zero)
next
  case False
  then show ?thesis using diff_group_props(4) [OF assms] by simp
qed

lemma daily_deaths_ok:
  assumes "set (draw_names n_draws) \<subseteq> set (columns t)"
  shows "daily_deaths n_draws t =
     Inr \<lparr>columns = draw_names n_draws,
          rows = concat (map (\<lambda>l. diff_group (draw_names n_draws)
                    (filter (\<lambda>r. location_id r = l)
                       (sort_key (\<lambda>r. (location_id r, date r)) (rows t))))
                  (sort (remdups (map location_id
                       (sort_key (\<lambda>r. (location_id r, date r)) (rows t))))))\<rparr>"
proof -
  have "list_all (\<lambda>c. c \<in> set (columns t)) (draw_names n_draws)"
    using assms by (auto simp: list_all_iff)
  then show ?thesis by (simp add: daily_deaths_def Let_def)
qed

text \<open>
  Claim C6 says that the dates of the daily increments are moved back by the lag. Within
  \<^verbatim>\<open>make_deaths\<close> they are not: for the cumulative values 20, 5, 12 on days 3, 1, 2 the
  differenced table holds 5, 7, 8 on the days 1, 2, 3, and it is the infections table
  whose days 1, 2, 3 become \<open>- 22, - 21, - 20\<close>. The lag goes to
  \<^verbatim>\<open>data.write_infections\<close> as \<^verbatim>\<open>duration\<close>.
\<close>

theorem daily_deaths_keep_their_dates:
  "map_sum id (\<lambda>a. map (\<lambda>r. (location_id r, date r, cells r ''draw_0''))
                      (rows (smooth_draws_arg a)))
     (derive_infections 1 cumulative_table infections_table) =
     Inr [(7, 1, Some 5), (7, 2, Some 7), (7, 3, Some 8)]
   \<and> map_sum id (\<lambda>a. map (\<lambda>r. (location_id r, date r, cells r ''draw_0''))
                        (rows (infections_arg a)))
       (derive_infections 1 cumulative_table infections_table) =
       Inr [(7, - 22, Some 100), (7, - 21, Some 140), (7, - 20, Some 160)]
   \<and> map_sum id duration_arg (derive_infections 1 cumulative_table infections_table) = Inr 23"
  by code_simp

text \<open>
  Claim C6. When the table has the draw columns \<^verbatim>\<open>draw_0 .. draw_{n_draws-1}\<close>, the block
  succeeds, and for every location: its rows are taken in ascending date order; the
  differenced table has one row per row of the location, with the same date; in every
  draw column the value of a row is its cumulative value minus the cumulative value of
  the row before it, and minus zero for the first row, so that the first row keeps its
  cumulative value. The dates of the infections table are moved back by the lag
  \<open>DURATION + 11 = 23\<close> days, with its columns, locations and values unchanged, and the
  same lag is handed on as \<^verbatim>\<open>duration\<close> together with the two tables. Cumulative values
  5, 12, 20 give the daily values 5, 7, 8.
\<close>

theorem infection_derivation:
  assumes "set (draw_names n_draws) \<subseteq> set (columns t)"
  shows "(\<exists>out shifted. derive_infections n_draws t infections =
             Inr \<lparr>infections_arg = shifted, smooth_draws_arg = out, duration_arg = 23\<rparr>
      \<and> daily_deaths n_draws t = Inr out \<and> columns out = draw_names n_draws
      \<and> (\<forall>l. let x = filter (\<lambda>r. location_id r = l)
                        (sort_key (\<lambda>r. (location_id r, date r)) (rows t));
                  y = filter (\<lambda>r. location_id r = l) (rows out)
              in set x = {r \<in> set (rows t). location_id r = l}
               \<and> length x = length (filter (\<lambda>r. location_id r = l) (rows t))
               \<and> sorted (map date x)
               \<and> length y = length x
               \<and> (\<forall>j < length x. date (y ! j) = date (x ! j)
                    \<and> (\<forall>c \<in> set (draw_names n_draws).
                          cells (y ! j) c =
                            nan_sub (cells (x ! j) c)
                              (if j = 0 then Some 0 else cells (x ! (j - 1)) c)
                          \<and> (j = 0 \<longrightarrow> cells (y ! j) c = cells (x ! j) c))))
      \<and> columns shifted = columns infections
      \<and> map date (rows shifted) = map (\<lambda>r. date r - 23) (rows infections)
      \<and> map location_id (rows shifted) = map location_id (rows infections)
      \<and> map cells (rows shifted) = map cells (rows infections))
    \<and> np_diff_prepend0 1 [[Some 5], [Some 12], [Some 20]] = [[Some 5], [Some 7], [Some 8]]"
proof -
  let ?cs = "draw_names n_draws"
  let ?s = "sort_key (\<lambda>r. (location_id r, date r)) (rows t)"
  let ?out = "\<lparr>columns = ?cs,
               rows = concat (map (\<lambda>l. diff_group ?cs (filter (\<lambda>r. location_id r = l) ?s))
                        (sort (remdups (map location_id ?s))))\<rparr>"
  have r: "daily_deaths n_draws t = Inr ?out"
    by (rule daily_deaths_ok [OF assms])
  have co: "columns ?out = ?cs" by simp
  have per: "let x = filter (\<lambda>r. location_id r = l) ?s;
                  y = filter (\<lambda>r. location_id r = l) (rows ?out)
              in set x = {r \<in> set (rows t). location_id r = l}
               \<and> length x = length (filter (\<lambda>r. location_id r = l) (rows t))
               \<and> sorted (map date x)
               \<and> length y = length x
               \<and> (\<forall>j < length x. date (y ! j) = date (x ! j)
                    \<and> (\<forall>c \<in> set ?cs.
                          cells (y ! j) c =
                            nan_sub (cells (x ! j) c)
                              (if j = 0 then Some 0 else cells (x ! (j - 1)) c)
                          \<and> (j = 0 \<longrightarrow> cells (y ! j) c = cells (x ! j) c)))" for l
  proof -
    let ?x = "filter (\<lambda>r. location_id r = l) ?s"
    have y: "filter (\<lambda>r. location_id r = l) (rows ?out) = diff_group ?cs ?x"
      unfolding draw_table.select_convs by (rule daily_rows_of_location)
    have 1: "set ?x = {r \<in> set (rows t). location_id r = l}"
      by (rule group_of_sorted(1))
    have 2: "length ?x = length (filter (\<lambda>r. location_id r = l) (rows t))"
      by (rule group_of_sorted(2))
    have 3: "sorted (map date ?x)" by (rule sorted_dates_of_location)
    have 4: "length (diff_group ?cs ?x) = length ?x" by (rule diff_group_props(1))
    have 5: "\<forall>j < length ?x. date (diff_group ?cs ?x ! j) = date (?x ! j)
                    \<and> (\<forall>c \<in> set ?cs.
                          cells (diff_group ?cs ?x ! j) c =
                            nan_sub (cells (?x ! j) c)
                              (if j = 0 then Some 0 else cells (?x ! (j - 1)) c)
                          \<and> (j = 0 \<longrightarrow> cells (diff_group ?cs ?x ! j) c = cells (?x ! j) c))"
    proof (intro allI impI conjI ballI)
      fix j c
      assume j: "j < length ?x"
      show "date (diff_group ?cs ?x ! j) = date (?x ! j)"
        using j by (rule diff_group_props(3))
      assume c: "c \<in> set ?cs"
      show "cells (diff_group ?cs ?x ! j) c =
              nan_sub (cells (?x ! j) c) (if j = 0 then Some 0 else cells (?x ! (j - 1)) c)"
        using diff_group_cells [OF j c] by (rule conjunct1)
      show "cells (diff_group ?cs ?x ! j) c = cells (?x ! j) c" if "j = 0"
        using diff_group_cells [OF j c] that by blast
    qed
    show ?thesis unfolding Let_def y using 1 2 3 4 5 by (intro conjI)
  qed
  let ?sh = "infections\<lparr>rows := shift_infection_dates (rows infections)\<rparr>"
  have di: "derive_infections n_draws t infections =
             Inr \<lparr>infections_arg = ?sh, smooth_draws_arg = ?out, duration_arg = 23\<rparr>"
    by (simp add: derive_infections_def Let_def r DURATION_def)
  have ci: "columns ?sh = columns infections" by simp
  have b: "map date (rows ?sh) = map (\<lambda>r. date r - 23) (rows infections)"
    by (simp add: shift_infection_dates_def DURATION_def)
  have c: "map location_id (rows ?sh) = map location_id (rows infections)"
    by (simp add: shift_infection_dates_def)
  have d: "map cells (rows ?sh) = map cells (rows infections)"
    by (simp add: shift_infection_dates_def)
  have a: "\<exists>out shifted. derive_infections n_draws t infections =
             Inr \<lparr>infections_arg = shifted, smooth_draws_arg = out, duration_arg = 23\<rparr>
      \<and> daily_deaths n_draws t = Inr out \<and> columns out = draw_names n_draws
      \<and> (\<forall>l. let x = filter (\<lambda>r. location_id r = l)
                        (sort_key (\<lambda>r. (location_id r, date r)) (rows t));
                  y = filter (\<lambda>r. location_id r = l) (rows out)
              in set x = {r \<in> set (rows t). location_id r = l}
               \<and> length x = length (filter (\<lambda>r. location_id r = l) (rows t))
               \<and> sorted (map date x)
               \<and> length y = length x
               \<and> (\<forall>j < length x. date (y ! j) = date (x ! j)
                    \<and> (\<forall>c \<in> set (draw_names n_draws).
                          cells (y ! j) c =
                            nan_sub (cells (x ! j) c)
                              (if j = 0 then Some 0 else cells (x ! (j - 1)) c)
                          \<and> (j = 0 \<longrightarrow> cells (y ! j) c = cells (x ! j) c))))
      \<and> columns shifted = columns infections
      \<and> map date (rows shifted) = map (\<lambda>r. date r - 23) (rows infections)
      \<and> map location_id (rows shifted) = map location_id (rows infections)
      \<and> map cells (rows shifted) = map cells (rows infections)"
    apply (rule exI [of _ ?out])
    apply (rule exI [of _ ?sh])
    using di r co per ci b c d by (intro conjI allI)
  have e: "np_diff_prepend0 1 [[Some 5], [Some 12], [Some 20]] = [[Some 5], [Some 7], [Some 8]]"
    by (simp add: np_diff_prepend0_def)
  show ?thesis using a e by (rule conjI)
qed

theorem infection_derivation_witness:
  "set (draw_names 1) \<subseteq> set (columns cumulative_table)
   \<and> (\<exists>out shifted.
         derive_infections 1 cumulative_table infections_table =
           Inr \<lparr>infections_arg = shifted, smooth_draws_arg = out, duration_arg = 23\<rparr>
         \<and> map (\<lambda>r. (location_id r, date r, cells r ''draw_0'')) (rows out)
             = [(7, 1, Some 5), (7, 2, Some 7), (7, 3, Some 8)]
         \<and> map date (rows shifted) = [- 22, - 21, - 20])"
proof -
  have h: "set (draw_names 1) \<subseteq> set (columns cumulative_table)"
    by code_simp
  from infection_derivation [OF h, of infections_table, THEN conjunct1]
  obtain out shifted where
    di: "derive_infections 1 cumulative_table infections_table =
           Inr \<lparr>infections_arg = shifted, smooth_draws_arg = out, duration_arg = 23\<rparr>"
    and o: "daily_deaths 1 cumulative_table = Inr out"
    and s: "map date (rows shifted) = map (\<lambda>r. date r - 23) (rows infections_table)"
    by (elim exE conjE) (rule that; assumption)
  have "map_sum id (\<lambda>out. map (\<lambda>r. (location_id r, date r, cells r ''draw_0'')) (rows out))
          (daily_deaths 1 cumulative_table)
        = Inr [(7, 1, Some 5), (7, 2, Some 7), (7, 3, Some 8)]"
    by code_simp
  then have v: "map (\<lambda>r. (location_id r, date r, cells r ''draw_0'')) (rows out)
             = [(7, 1, Some 5), (7, 2, Some 7), (7, 3, Some 8)]"
    unfolding o by simp
  have s': "map date (rows shifted) = [- 22, - 21, - 20]"
    unfolding s by (simp add: infections_table_def draw_at_def)
  have ex: "\<exists>out shifted.
         derive_infections 1 cumulative_table infections_table =
           Inr \<lparr>infections_arg = shifted, smooth_draws_arg = out, duration_arg = 23\<rparr>
         \<and> map (\<lambda>r. (location_id r, date r, cells r ''draw_0'')) (rows out)
             = [(7, 1, Some 5), (7, 2, Some 7), (7, 3, Some 8)]
         \<and> map date (rows shifted) = [- 22, - 21, - 20]"
    using di v s' by (intro exI conjI)
  show ?thesis using h ex by (rule conjI)
qed

section \<open>Aggregate ids and names\<close>

lemma aggregate_row_declared:
  assumes "r \<in> set (compute_location_aggregates sum_up data locs)"
  shows "\<exists>loc \<in> set locs. agg_location_id r = loc_id loc \<and> agg_location_name r = loc_name loc"
  using assms by (auto simp: compute_location_aggregates_def)

text \<open>
  Claim C8. With the aggregates labelled by the declared id and name: row by row, the
  published location id of the post-model aggregate data is the negation of the id the
  aggregation returned and the published name is the returned name followed by
  \<^verbatim>\<open> (model aggregate)\<close>, the rest of the row being unchanged; the ids of the aggregate
  draws are negated in the same way. So every published aggregate row carries the
  negated id of a declared aggregate location (the added \<^verbatim>\<open>Global\<close>, id 1, among them)
  and, in the aggregate data, that location's name with the suffix.
\<close>

theorem aggregate_ids_negated:
  "map agg_location_id (fst (post_model_aggregates sum_data sum_draws md sd locs))
     = map (\<lambda>r. - agg_location_id r)
         (compute_location_aggregates sum_data md (\<lparr>loc_id = 1, loc_name = ''Global''\<rparr> # locs))
   \<and> map agg_location_name (fst (post_model_aggregates sum_data sum_draws md sd locs))
     = map (\<lambda>r. agg_location_name r @ '' (model aggregate)'')
         (compute_location_aggregates sum_data md (\<lparr>loc_id = 1, loc_name = ''Global''\<rparr> # locs))
   \<and> map agg_values (fst (post_model_aggregates sum_data sum_draws md sd locs))
     = map agg_values
         (compute_location_aggregates sum_data md (\<lparr>loc_id = 1, loc_name = ''Global''\<rparr> # locs))
   \<and> map agg_location_id (snd (post_model_aggregates sum_data sum_draws md sd locs))
     = map (\<lambda>r. - agg_location_id r)
         (compute_location_aggregates sum_draws sd (\<lparr>loc_id = 1, loc_name = ''Global''\<rparr> # locs))
   \<and> (\<forall>r \<in> set (fst (post_model_aggregates sum_data sum_draws md sd locs)).
         \<exists>loc \<in> set (\<lparr>loc_id = 1, loc_name = ''Global''\<rparr> # locs).
           agg_location_id r = - loc_id loc
           \<and> agg_location_name r = loc_name loc @ '' (model aggregate)'')
   \<and> (\<forall>r \<in> set (snd (post_model_aggregates sum_data sum_draws md sd locs)).
         \<exists>loc \<in> set (\<lparr>loc_id = 1, loc_name = ''Global''\<rparr> # locs).
           agg_location_id r = - loc_id loc)"
proof (intro conjI ballI)
  let ?L = "\<lparr>loc_id = 1, loc_name = ''Global''\<rparr> # locs"
  let ?P = "post_model_aggregates sum_data sum_draws md sd locs"
  show "map agg_location_id (fst ?P)
          = map (\<lambda>r. - agg_location_id r) (compute_location_aggregates sum_data md ?L)"
    by (simp add: post_model_aggregates_def Let_def)
  show "map agg_location_name (fst ?P)
          = map (\<lambda>r. agg_location_name r @ '' (model aggregate)'')
              (compute_location_aggregates sum_data md ?L)"
    by (simp add: post_model_aggregates_def Let_def)
  show "map agg_values (fst ?P) = map agg_values (compute_location_aggregates sum_data md ?L)"
    by (simp add: post_model_aggregates_def Let_def)
  show "map agg_location_id (snd ?P)
          = map (\<lambda>r. - agg_location_id r) (compute_location_aggregates sum_draws sd ?L)"
    by (simp add: post_model_aggregates_def Let_def)
  show "\<exists>loc \<in> set ?L. agg_location_id r = - loc_id loc
           \<and> agg_location_name r = loc_name loc @ '' (model aggregate)''"
    if "r \<in> set (fst ?P)" for r
  proof -
    from that obtain r0 where r0: "r0 \<in> set (compute_location_aggregates sum_data md ?L)"
      and r: "r = r0\<lparr>agg_location_id := - agg_location_id r0,
                     agg_location_name := agg_location_name r0 @ '' (model aggregate)''\<rparr>"
      by (auto simp: post_model_aggregates_def Let_def)
    from aggregate_row_declared [OF r0] show ?thesis unfolding r by auto
  qed
  show "\<exists>loc \<in> set ?L. agg_location_id r = - loc_id loc" if "r \<in> set (snd ?P)" for r
  proof -
    from that obtain r0 where r0: "r0 \<in> set (compute_location_aggregates sum_draws sd ?L)"
      and r: "r = r0\<lparr>agg_location_id := - agg_location_id r0\<rparr>"
      by (auto simp: post_model_aggregates_def Let_def)
    from aggregate_row_declared [OF r0] show ?thesis unfolding r by auto
  qed
qed

theorem aggregate_ids_negated_witness:
  "map agg_location_id
     (fst (post_model_aggregates (\<lambda>loc d. [d]) (\<lambda>loc d. [d]) (0::nat) (0::nat)
        [\<lparr>loc_id = 102, loc_name = ''United States of America''\<rparr>]))
   = [- 1, - 102]
   \<and> map agg_location_name
     (fst (post_model_aggregates (\<lambda>loc d. [d]) (\<lambda>loc d. [d]) (0::nat) (0::nat)
        [\<lparr>loc_id = 102, loc_name = ''United States of America''\<rparr>]))
   = [''Global (model aggregate)'', ''United States of America (model aggregate)'']
   \<and> map agg_location_id
     (snd (post_model_aggregates (\<lambda>loc d. [d]) (\<lambda>loc d. [d]) (0::nat) (0::nat)
        [\<lparr>loc_id = 102, loc_name = ''United States of America''\<rparr>]))
   = [- 1, - 102]"
proof -
  note t = aggregate_ids_negated [of "\<lambda>loc d. [d]" "\<lambda>loc d. [d]" "0::nat" "0::nat"
      "[\<lparr>loc_id = 102, loc_name = ''United States of America''\<rparr>]"]
  let ?P = "post_model_aggregates (\<lambda>loc d. [d]) (\<lambda>loc d. [d]) (0::nat) (0::nat)
        [\<lparr>loc_id = 102, loc_name = ''United States of America''\<rparr>]"
  have i: "map agg_location_id (fst ?P) = [- 1, - 102]"
    unfolding t [THEN conjunct1] by (simp add: compute_location_aggregates_def)
  have n: "map agg_location_name (fst ?P)
             = [''Global (model aggregate)'', ''United States of America (model aggregate)'']"
    unfolding t [THEN conjunct2, THEN conjunct1] by (simp add: compute_location_aggregates_def)
  have d: "map agg_location_id (snd ?P) = [- 1, - 102]"
    unfolding t [THEN conjunct2, THEN conjunct2, THEN conjunct2, THEN conjunct1]
    by (simp add: compute_location_aggregates_def)
  show ?thesis using i n d by (intro conjI)
qed

end
